theory Spec2Isabelle
  imports Main
begin

section \<open>Data model\<close>

text \<open>
  JSON values as \<^verbatim>\<open>JSON.parse\<close> produces them. A number is an exact decimal:
  \<open>JNum m d\<close> stands for \<open>m / 10 ^ d\<close>, canonical when \<open>d = 0\<close> or \<open>m\<close> is not a
  multiple of ten (the rounding of IEEE doubles is outside the model). A string is a
  list of 8-bit code units. An object is the list of its own properties in the order
  \<^verbatim>\<open>Object.keys\<close> enumerates them.
\<close>

datatype json =
    JNull
  | JBool bool
  | JNum int nat
  | JStr string
  | JArr "json list"
  | JObj "(string \<times> json) list"

text \<open>The value of a row: \<^verbatim>\<open>string | number | boolean | null\<close>.\<close>

datatype prim = PNull | PBool bool | PNum int nat | PStr string

datatype NodeType = TString | TNumber | TBoolean | TNull | TObject | TArray

text \<open>
  Modelled from the spec: the declarations of \<^verbatim>\<open>NodeRow\<close> and \<^verbatim>\<open>NodeData\<close>
  (\<^verbatim>\<open>types/graph\<close>) are not among the sources; the fields are those the code reads.
  \<^verbatim>\<open>NodeRow\<close>: \<open>rkey\<close> is the field \<^verbatim>\<open>key\<close> (\<open>None\<close> is \<^verbatim>\<open>null\<close>), \<open>rvalue\<close> the field
  \<^verbatim>\<open>value\<close>, \<open>rtype\<close> the field \<^verbatim>\<open>type\<close>.
\<close>

record NodeRow =
  rkey :: "string option"
  rvalue :: prim
  rtype :: NodeType

text \<open>
  Modelled from the spec: a path segment (\<^verbatim>\<open>JSONPath\<close> is declared outside the sources) is
  a string or a number, the number an array index.
\<close>

datatype segment = Key string | Idx nat

text \<open>
  Modelled from the spec, as \<^verbatim>\<open>NodeRow\<close> is.
  \<^verbatim>\<open>NodeData\<close>: \<open>ntext\<close> is the field \<^verbatim>\<open>text\<close>, \<open>npath\<close> the optional field
  \<^verbatim>\<open>path\<close> (\<open>None\<close> is \<^verbatim>\<open>undefined\<close>).
\<close>

record NodeData =
  ntext :: "NodeRow list"
  npath :: "segment list option"

section \<open>Host operations on strings and numbers\<close>

definition digit_char :: "nat \<Rightarrow> char" where
  "digit_char d = ''0123456789'' ! d"

function string_of_nat :: "nat \<Rightarrow> string" where
  "string_of_nat n =
     (if n < 10 then [digit_char n]
      else string_of_nat (n div 10) @ [digit_char (n mod 10)])"
  by pat_completeness auto
termination
  by (relation "measure id") auto

declare string_of_nat.simps [simp del]

fun norm_dec :: "int \<Rightarrow> nat \<Rightarrow> int \<times> nat" where
  "norm_dec m 0 = (m, 0)"
| "norm_dec m (Suc d) = (if m mod 10 = 0 then norm_dec (m div 10) d else (m, Suc d))"

definition strip_zeros :: "string \<Rightarrow> string" where
  "strip_zeros s = rev (dropWhile (\<lambda>c. c = CHR ''0'') (rev s))"

text \<open>
  \<^verbatim>\<open>Number::toString\<close> of ECMAScript on a positive decimal \<open>a / 10 ^ d\<close>: with \<open>s\<close> the
  significant digits, \<open>k\<close> their count and \<open>n\<close> the position of the decimal point, the
  four layouts of the standard (plain integer, fraction, leading zeros, exponent).
\<close>

definition pos_toString :: "nat \<Rightarrow> nat \<Rightarrow> string" where
  "pos_toString a d =
     (let s0 = string_of_nat a;
          s = strip_zeros s0;
          k = int (length s);
          n = int (length s0) - int d
      in if k \<le> n \<and> n \<le> 21 then s @ replicate (nat (n - k)) CHR ''0''
         else if 0 < n \<and> n \<le> 21 then take (nat n) s @ ''.'' @ drop (nat n) s
         else if - 6 < n \<and> n \<le> 0 then ''0.'' @ replicate (nat (- n)) CHR ''0'' @ s
         else
           (let e = n - 1;
                es = (if e < 0 then ''-'' else ''+'') @ string_of_nat (nat \<bar>e\<bar>)
            in if k = 1 then s @ ''e'' @ es
               else [hd s] @ ''.'' @ tl s @ ''e'' @ es))"

definition Number_toString :: "int \<Rightarrow> nat \<Rightarrow> string" where
  "Number_toString m d =
     (case norm_dec m d of (m', d') \<Rightarrow>
        if m' = 0 then ''0''
        else (if m' < 0 then ''-'' else '''') @ pos_toString (nat \<bar>m'\<bar>) d')"

text \<open>The string a template literal \<^verbatim>\<open>`${v}`\<close> makes of a row value.\<close>

fun ToString :: "prim \<Rightarrow> string" where
  "ToString PNull = ''null''"
| "ToString (PBool b) = (if b then ''true'' else ''false'')"
| "ToString (PNum m d) = Number_toString m d"
| "ToString (PStr s) = s"

text \<open>\<^verbatim>\<open>Array.prototype.join\<close> on a list of strings.\<close>

fun join :: "string \<Rightarrow> string list \<Rightarrow> string" where
  "join sep [] = []"
| "join sep [x] = x"
| "join sep (x # y # ys) = x @ sep @ join sep (y # ys)"

section \<open>Objects and \<^verbatim>\<open>JSON.stringify\<close>\<close>

definition is_digit :: "char \<Rightarrow> bool" where
  "is_digit c = (c \<in> set ''0123456789'')"

definition digit_val :: "char \<Rightarrow> nat" where
  "digit_val c = of_char c - 48"

definition nat_of_string :: "string \<Rightarrow> nat" where
  "nat_of_string s = foldl (\<lambda>a c. 10 * a + digit_val c) 0 s"

text \<open>
  An array index of ECMAScript: the canonical decimal string of an integer below
  \<open>2 ^ 32 - 1\<close>. An ordinary object enumerates such keys first, in ascending order, and
  every other key after them in insertion order.
\<close>

definition array_index :: "string \<Rightarrow> nat option" where
  "array_index k =
     (if k \<noteq> [] \<and> list_all is_digit k \<and> (k = ''0'' \<or> hd k \<noteq> CHR ''0'')
         \<and> nat_of_string k < 4294967295
      then Some (nat_of_string k) else None)"

definition index_below :: "nat \<Rightarrow> string \<times> 'a \<Rightarrow> bool" where
  "index_below i e = (case array_index (fst e) of Some j \<Rightarrow> j < i | None \<Rightarrow> False)"

text \<open>The assignment \<^verbatim>\<open>obj[k] = v\<close> on the list of own properties.\<close>

definition obj_set :: "string \<Rightarrow> 'a \<Rightarrow> (string \<times> 'a) list \<Rightarrow> (string \<times> 'a) list" where
  "obj_set k v kvs =
     (if k \<in> fst ` set kvs then map (\<lambda>e. if fst e = k then (k, v) else e) kvs
      else case array_index k of
             Some i \<Rightarrow> takeWhile (index_below i) kvs @ [(k, v)] @ dropWhile (index_below i) kvs
           | None \<Rightarrow> kvs @ [(k, v)])"

definition hex_char :: "nat \<Rightarrow> char" where
  "hex_char d = ''0123456789abcdef'' ! d"

text \<open>The escape \<^verbatim>\<open>JSON.stringify\<close> writes for one code unit of a string.\<close>

definition esc :: "char \<Rightarrow> string" where
  "esc c =
     (if c = CHR 0x22 then [CHR 0x5C, CHR 0x22]
      else if c = CHR 0x5C then [CHR 0x5C, CHR 0x5C]
      else if c = CHR 0x08 then [CHR 0x5C, CHR ''b'']
      else if c = CHR 0x0C then [CHR 0x5C, CHR ''f'']
      else if c = CHR 0x0A then [CHR 0x5C, CHR ''n'']
      else if c = CHR 0x0D then [CHR 0x5C, CHR ''r'']
      else if c = CHR 0x09 then [CHR 0x5C, CHR ''t'']
      else if (of_char c :: nat) < 32
        then [CHR 0x5C, CHR ''u'', CHR ''0'', CHR ''0'',
              hex_char (of_char c div 16), hex_char (of_char c mod 16)]
      else [c])"

definition JSON_quote :: "string \<Rightarrow> string" where
  "JSON_quote s = CHR 0x22 # concat (map esc s) @ [CHR 0x22]"

fun JSON_stringify_prim :: "prim \<Rightarrow> string" where
  "JSON_stringify_prim PNull = ''null''"
| "JSON_stringify_prim (PBool b) = (if b then ''true'' else ''false'')"
| "JSON_stringify_prim (PNum m d) = Number_toString m d"
| "JSON_stringify_prim (PStr s) = JSON_quote s"

text \<open>
  \<^verbatim>\<open>JSON.stringify(obj, null, 2)\<close> on an object whose values are row values: one
  member per line, indented by two spaces, \<^verbatim>\<open>{}\<close> for the empty object.
\<close>

definition member2 :: "string \<times> prim \<Rightarrow> string" where
  "member2 e = ''  '' @ JSON_quote (fst e) @ '': '' @ JSON_stringify_prim (snd e)"

definition JSON_stringify2 :: "(string \<times> prim) list \<Rightarrow> string" where
  "JSON_stringify2 obj =
     (if obj = [] then ''{}''
      else [CHR ''{'', CHR 0x0A] @ join [CHR '','', CHR 0x0A] (map member2 obj)
           @ [CHR 0x0A, CHR ''}''])"

section \<open>Row Model Projector\<close>

text \<open>Truthiness of \<^verbatim>\<open>row.key\<close>: \<^verbatim>\<open>null\<close> and the empty string are falsy.\<close>

definition truthy_key :: "string option \<Rightarrow> bool" where
  "truthy_key k = (case k of None \<Rightarrow> False | Some s \<Rightarrow> s \<noteq> [])"

text \<open>
  The assignment \<^verbatim>\<open>obj[k] = v\<close> on an object made by the literal \<^verbatim>\<open>{}\<close>. While the
  object has its prototype, the key \<^verbatim>\<open>__proto__\<close> is the accessor of
  \<^verbatim>\<open>Object.prototype\<close>: the assignment creates no property, and the value \<^verbatim>\<open>null\<close>
  removes the prototype. The second component says whether the prototype is removed.
\<close>

definition obj_assign ::
  "string \<Rightarrow> prim \<Rightarrow> (string \<times> prim) list \<times> bool \<Rightarrow> (string \<times> prim) list \<times> bool"
where
  "obj_assign k v st =
     (if k = ''__proto__'' \<and> \<not> snd st then (fst st, v = PNull)
      else (obj_set k v (fst st), snd st))"

text \<open>The body of the \<^verbatim>\<open>forEach\<close> that fills \<^verbatim>\<open>obj\<close>.\<close>

definition add_row ::
  "(string \<times> prim) list \<times> bool \<Rightarrow> NodeRow \<Rightarrow> (string \<times> prim) list \<times> bool"
where
  "add_row obj row =
     (if rtype row \<noteq> TArray \<and> rtype row \<noteq> TObject
      then (case rkey row of
              Some k \<Rightarrow> if k \<noteq> [] then obj_assign k (rvalue row) obj else obj
            | None \<Rightarrow> obj)
      else obj)"

definition isPrimitive :: "NodeData \<Rightarrow> bool" where
  "isPrimitive nd = (length (ntext nd) = 1 \<and> \<not> truthy_key (rkey (hd (ntext nd))))"

definition getEditableString :: "NodeData option \<Rightarrow> string" where
  "getEditableString nodeData =
     (case nodeData of
        None \<Rightarrow> ''{}''
      | Some nd \<Rightarrow>
          if length (ntext nd) = 1 \<and> \<not> truthy_key (rkey (hd (ntext nd)))
          then ToString (rvalue (hd (ntext nd)))
          else JSON_stringify2 (fst (foldl add_row ([], False) (ntext nd))))"

definition normalizeNodeData :: "NodeRow list \<Rightarrow> string" where
  "normalizeNodeData nodeRows =
     (if length nodeRows = 0 then ''{}''
      else if length nodeRows = 1 \<and> \<not> truthy_key (rkey (hd nodeRows))
      then ToString (rvalue (hd nodeRows))
      else JSON_stringify2 (fst (foldl add_row ([], False) nodeRows)))"

section \<open>Path label\<close>

definition seg_label :: "segment \<Rightarrow> string" where
  "seg_label seg =
     (case seg of
        Idx n \<Rightarrow> Number_toString (int n) 0
      | Key s \<Rightarrow> [CHR 0x22] @ s @ [CHR 0x22])"

definition jsonPathToString :: "segment list option \<Rightarrow> string" where
  "jsonPathToString path =
     (case path of
        None \<Rightarrow> ''$''
      | Some p \<Rightarrow>
          if length p = 0 then ''$''
          else ''$['' @ join '']['' (map seg_label p) @ '']'')"

section \<open>Row Model Parser\<close>

fun jsonType :: "json \<Rightarrow> NodeType" where
  "jsonType JNull = TNull"
| "jsonType (JArr xs) = TArray"
| "jsonType (JNum m d) = TNumber"
| "jsonType (JBool b) = TBoolean"
| "jsonType (JObj kvs) = TObject"
| "jsonType (JStr s) = TString"

text \<open>A JSON value as a row value; the rows never store a container.\<close>

fun scalar :: "json \<Rightarrow> prim" where
  "scalar JNull = PNull"
| "scalar (JBool b) = PBool b"
| "scalar (JNum m d) = PNum m d"
| "scalar (JStr s) = PStr s"
| "scalar (JArr xs) = PNull"
| "scalar (JObj kvs) = PNull"

text \<open>
  The object literal \<^verbatim>\<open>{ key, value: type === "object" || type === "array" ? null : value, type }\<close>.
\<close>

definition mk_row :: "string option \<Rightarrow> json \<Rightarrow> NodeRow" where
  "mk_row k v =
     (let type = jsonType v
      in \<lparr>rkey = k,
          rvalue = (if type = TObject \<or> type = TArray then PNull else scalar v),
          rtype = type\<rparr>)"

text \<open>
  The rows the inline editor computes from the parsed value: one row per own key of a
  non-array object, one keyless row for anything else.
\<close>

definition rows_of_parsed :: "json \<Rightarrow> NodeRow list" where
  "rows_of_parsed parsed =
     (case parsed of
        JObj kvs \<Rightarrow> map (\<lambda>e. mk_row (Some (fst e)) (snd e)) kvs
      | _ \<Rightarrow> [mk_row None parsed])"

section \<open>Stores and host functions\<close>

text \<open>
  What the save flow calls and does not define: \<^verbatim>\<open>JSON.parse\<close> (\<open>Inl\<close> carries the
  message of the \<^verbatim>\<open>SyntaxError\<close> it throws), \<^verbatim>\<open>modify\<close> and \<^verbatim>\<open>applyEdits\<close> of
  jsonc-parser (\<open>Inl\<close> is a thrown exception; the value \<open>None\<close> is \<^verbatim>\<open>undefined\<close>, which
  asks \<^verbatim>\<open>modify\<close> to remove the property; the formatting options are the same constant
  at every call), and the graph parser that rebuilds the node list from the document.
\<close>

record 'e host =
  h_parse :: "string \<Rightarrow> string + json"
  h_modify :: "string \<Rightarrow> segment list \<Rightarrow> json option \<Rightarrow> string + 'e"
  h_applyEdits :: "string \<Rightarrow> 'e \<Rightarrow> string + string"
  h_graph :: "string \<Rightarrow> NodeData list"

text \<open>
  The shared state: \<open>jsonText\<close> is \<^verbatim>\<open>useJson.json\<close> (the Document), \<open>contents\<close> and
  \<open>hasChanges\<close> are the fields of \<^verbatim>\<open>useFile\<close> (the persisted mirror), \<open>nodes\<close> and
  \<open>selectedNode\<close> the fields of \<^verbatim>\<open>useGraph\<close>; \<open>error\<close> is the session error of the
  modal and \<open>opened\<close> says whether the editor is open.
\<close>

record state =
  jsonText :: string
  contents :: string
  hasChanges :: bool
  nodes :: "NodeData list"
  selectedNode :: "NodeData option"
  error :: "string option"
  opened :: bool

text \<open>
  Modelled from the spec: the stores \<^verbatim>\<open>useJson\<close>, \<^verbatim>\<open>useGraph\<close> and \<^verbatim>\<open>useFile\<close> are not
  among the sources. \<^verbatim>\<open>setJson\<close> replaces the Document and triggers the rebuild of the
  tree, \<^verbatim>\<open>setSelectedNode\<close> marks a node as selected, \<^verbatim>\<open>setContents\<close> writes the
  mirror, and \<^verbatim>\<open>onClose\<close> closes the editor.
\<close>

definition setJson :: "'e host \<Rightarrow> string \<Rightarrow> state \<Rightarrow> state" where
  "setJson h j s = s\<lparr>jsonText := j, nodes := h_graph h j\<rparr>"

definition setSelectedNode :: "NodeData \<Rightarrow> state \<Rightarrow> state" where
  "setSelectedNode n s = s\<lparr>selectedNode := Some n\<rparr>"

definition setContents :: "string \<Rightarrow> bool \<Rightarrow> state \<Rightarrow> state" where
  "setContents c changed s = s\<lparr>contents := c, hasChanges := changed\<rparr>"

definition onClose :: "state \<Rightarrow> state" where
  "onClose s = s\<lparr>opened := False\<rparr>"

definition setError :: "string \<Rightarrow> state \<Rightarrow> state" where
  "setError msg s = s\<lparr>error := Some msg\<rparr>"

section \<open>Path-addressed patching\<close>

text \<open>\<^verbatim>\<open>applyEdits(currentJson, modify(currentJson, path, value, options))\<close>.\<close>

definition patch :: "'e host \<Rightarrow> string \<Rightarrow> segment list \<Rightarrow> json option \<Rightarrow> string + string" where
  "patch h currentJson path v =
     (case h_modify h currentJson path v of
        Inl err \<Rightarrow> Inl err
      | Inr edits \<Rightarrow> h_applyEdits h currentJson edits)"

text \<open>
  The loop \<^verbatim>\<open>for (const key of keys)\<close>: the value is \<^verbatim>\<open>newObj[key]\<close> when \<^verbatim>\<open>newObj\<close>
  has the key and \<^verbatim>\<open>undefined\<close> otherwise; the first exception ends the loop.
\<close>

fun patch_keys ::
  "'e host \<Rightarrow> segment list \<Rightarrow> (string \<times> json) list \<Rightarrow> string \<Rightarrow> string list \<Rightarrow> string + string"
where
  "patch_keys h path newObj currentJson [] = Inr currentJson"
| "patch_keys h path newObj currentJson (key # keys) =
     (case patch h currentJson (path @ [Key key]) (map_of newObj key) of
        Inl err \<Rightarrow> Inl err
      | Inr next \<Rightarrow> patch_keys h path newObj next keys)"

text \<open>\<^verbatim>\<open>Array.from(new Set(xs))\<close>: the first occurrence of every element, in order.\<close>

definition Set_from :: "'a list \<Rightarrow> 'a list" where
  "Set_from xs = rev (remdups (rev xs))"

definition editableKeys :: "NodeData \<Rightarrow> string list" where
  "editableKeys nd =
     map (\<lambda>r. the (rkey r))
       (filter (\<lambda>r. rtype r \<noteq> TArray \<and> rtype r \<noteq> TObject \<and> truthy_key (rkey r)) (ntext nd))"

text \<open>
  \<^verbatim>\<open>parsed && typeof parsed === "object" && !Array.isArray(parsed) ? parsed : {}\<close>.
\<close>

definition newObj_of :: "json \<Rightarrow> (string \<times> json) list" where
  "newObj_of parsed = (case parsed of JObj kvs \<Rightarrow> kvs | _ \<Rightarrow> [])"

definition edit_keys :: "NodeData \<Rightarrow> json \<Rightarrow> string list" where
  "edit_keys nd parsed = Set_from (editableKeys nd @ map fst (newObj_of parsed))"

definition path_of :: "NodeData \<Rightarrow> segment list" where
  "path_of nd = (case npath nd of None \<Rightarrow> [] | Some p \<Rightarrow> p)"

text \<open>The body of the inner \<^verbatim>\<open>try\<close> up to the patched text.\<close>

definition patched :: "'e host \<Rightarrow> NodeData \<Rightarrow> json \<Rightarrow> string \<Rightarrow> string + string" where
  "patched h nd parsed currentJson =
     (if isPrimitive nd then patch h currentJson (path_of nd) (Some parsed)
      else patch_keys h (path_of nd) (newObj_of parsed) currentJson (edit_keys nd parsed))"

section \<open>Reselection\<close>

definition seg_json :: "segment \<Rightarrow> string" where
  "seg_json seg =
     (case seg of Idx n \<Rightarrow> Number_toString (int n) 0 | Key s \<Rightarrow> JSON_quote s)"

text \<open>\<^verbatim>\<open>JSON.stringify\<close> on a path; on \<^verbatim>\<open>undefined\<close> it returns \<^verbatim>\<open>undefined\<close>.\<close>

definition JSON_stringify_path :: "segment list \<Rightarrow> string" where
  "JSON_stringify_path p = ''['' @ join '','' (map seg_json p) @ '']''"

definition same_path :: "segment list \<Rightarrow> NodeData \<Rightarrow> bool" where
  "same_path path n =
     (case npath n of
        None \<Rightarrow> False
      | Some q \<Rightarrow> JSON_stringify_path q = JSON_stringify_path path)"

definition reselect :: "segment list \<Rightarrow> state \<Rightarrow> state" where
  "reselect path s =
     (case find (same_path path) (nodes s) of
        None \<Rightarrow> s
      | Some found \<Rightarrow> setSelectedNode found s)"

section \<open>Reconciliation: the two save flows\<close>

text \<open>
  \<^verbatim>\<open>Object.keys(parsed || {})\<close> with \<^verbatim>\<open>parsed[key]\<close>: the own enumerable properties of
  an object, the elements of an array and the code units of a string under their
  indices, and nothing for \<^verbatim>\<open>null\<close>, a boolean or a number.
\<close>

fun own_entries :: "json \<Rightarrow> (string \<times> json) list" where
  "own_entries (JObj kvs) = kvs"
| "own_entries (JArr xs) = zip (map string_of_nat [0..<length xs]) xs"
| "own_entries (JStr s) = zip (map string_of_nat [0..<length s]) (map (\<lambda>c. JStr [c]) s)"
| "own_entries JNull = []"
| "own_entries (JBool b) = []"
| "own_entries (JNum m d) = []"

text \<open>The rows of the \<^verbatim>\<open>catch\<close> block of \<^verbatim>\<open>EditableNodeModal\<close>.\<close>

definition fallback_rows :: "bool \<Rightarrow> json \<Rightarrow> NodeRow list" where
  "fallback_rows isPrim parsed =
     (if isPrim then [mk_row None parsed]
      else map (\<lambda>e. mk_row (Some (fst e)) (snd e)) (own_entries parsed))"

text \<open>\<^verbatim>\<open>handleSave\<close> of \<^verbatim>\<open>EditableNodeModal\<close>.\<close>

definition handleSave :: "'e host \<Rightarrow> NodeData option \<Rightarrow> string \<Rightarrow> state \<Rightarrow> state" where
  "handleSave h nodeData txt s =
     (case h_parse h txt of
        Inl msg \<Rightarrow> setError msg s
      | Inr parsed \<Rightarrow>
          onClose
            (case nodeData of
               None \<Rightarrow> s
             | Some nd \<Rightarrow>
                 (case patched h nd parsed (jsonText s) of
                    Inr currentJson \<Rightarrow> reselect (path_of nd) (setJson h currentJson s)
                  | Inl err \<Rightarrow>
                      setSelectedNode (nd\<lparr>ntext := fallback_rows (isPrimitive nd) parsed\<rparr>) s)))"

text \<open>\<^verbatim>\<open>handleSave\<close> of \<^verbatim>\<open>EditableNodeModalInline\<close>.\<close>

definition handleSave_inline :: "'e host \<Rightarrow> NodeData option \<Rightarrow> string \<Rightarrow> state \<Rightarrow> state" where
  "handleSave_inline h nodeData txt s =
     (case h_parse h txt of
        Inl msg \<Rightarrow> setError msg s
      | Inr parsed \<Rightarrow>
          (let rows = rows_of_parsed parsed
           in onClose
                (case nodeData of
                   None \<Rightarrow> s
                 | Some nd \<Rightarrow>
                     (case patched h nd parsed (jsonText s) of
                        Inr currentJson \<Rightarrow>
                          reselect (path_of nd)
                            (setContents currentJson False (setJson h currentJson s))
                      | Inl err \<Rightarrow> setSelectedNode (nd\<lparr>ntext := rows\<rparr>) s))))"

text \<open>The Row Model Parser: \<^verbatim>\<open>JSON.parse\<close>, then the rows of the parsed value.\<close>

definition parse_rows :: "(string \<Rightarrow> string + json) \<Rightarrow> string \<Rightarrow> string + NodeRow list" where
  "parse_rows parse txt =
     (case parse txt of Inl msg \<Rightarrow> Inl msg | Inr parsed \<Rightarrow> Inr (rows_of_parsed parsed))"

section \<open>A reference \<^verbatim>\<open>JSON.parse\<close>\<close>

text \<open>
  The grammar of ECMA-404 as \<^verbatim>\<open>JSON.parse\<close> reads it, used where a statement needs
  the host parser on a concrete text. The recursion runs on a fuel that bounds the
  nesting and the number of members; \<open>JSON_parse\<close> starts it with more than the text can
  use. Numbers are read as exact decimals. An escape \<^verbatim>\<open>\uXXXX\<close> above \<^verbatim>\<open>00FF\<close> names a
  code unit that an 8-bit string does not have, and is reported as an error.
\<close>

definition is_ws :: "char \<Rightarrow> bool" where
  "is_ws c = (c = CHR '' '' \<or> c = CHR 0x09 \<or> c = CHR 0x0A \<or> c = CHR 0x0D)"

definition skip_ws :: "string \<Rightarrow> string" where
  "skip_ws s = dropWhile is_ws s"

definition hex_val :: "char \<Rightarrow> nat option" where
  "hex_val c =
     (let n = (of_char c :: nat)
      in if 48 \<le> n \<and> n \<le> 57 then Some (n - 48)
         else if 97 \<le> n \<and> n \<le> 102 then Some (n - 87)
         else if 65 \<le> n \<and> n \<le> 70 then Some (n - 55)
         else None)"

definition simple_escape :: "char \<Rightarrow> char option" where
  "simple_escape e =
     (if e = CHR 0x22 then Some (CHR 0x22)
      else if e = CHR 0x5C then Some (CHR 0x5C)
      else if e = CHR ''/'' then Some (CHR ''/'')
      else if e = CHR ''b'' then Some (CHR 0x08)
      else if e = CHR ''f'' then Some (CHR 0x0C)
      else if e = CHR ''n'' then Some (CHR 0x0A)
      else if e = CHR ''r'' then Some (CHR 0x0D)
      else if e = CHR ''t'' then Some (CHR 0x09)
      else None)"

definition unicode_escape :: "char \<Rightarrow> char \<Rightarrow> char \<Rightarrow> char \<Rightarrow> char option" where
  "unicode_escape a b c d =
     (case (hex_val a, hex_val b, hex_val c, hex_val d) of
        (Some x, Some y, Some z, Some w) \<Rightarrow>
          if x = 0 \<and> y = 0 then Some (char_of (16 * z + w)) else None
      | _ \<Rightarrow> None)"

definition cons_char :: "char \<Rightarrow> (string \<times> string) option \<Rightarrow> (string \<times> string) option" where
  "cons_char c r = (case r of None \<Rightarrow> None | Some (str, rest) \<Rightarrow> Some (c # str, rest))"

text \<open>The characters of a string after its opening quote, and what follows the string.\<close>

fun parse_string :: "string \<Rightarrow> (string \<times> string) option" where
  "parse_string [] = None"
| "parse_string (c # r) =
     (if c = CHR 0x22 then Some ([], r)
      else if c = CHR 0x5C then
        (case r of
           [] \<Rightarrow> None
         | e # r1 \<Rightarrow>
             if e = CHR ''u'' then
               (case r1 of
                  a # b # x # y # r2 \<Rightarrow>
                    (case unicode_escape a b x y of
                       None \<Rightarrow> None
                     | Some ch \<Rightarrow> cons_char ch (parse_string r2))
                | _ \<Rightarrow> None)
             else
               (case simple_escape e of
                  None \<Rightarrow> None
                | Some ch \<Rightarrow> cons_char ch (parse_string r1)))
      else if (of_char c :: nat) < 32 then None
      else cons_char c (parse_string r))"

text \<open>
  A number: an optional minus, \<^verbatim>\<open>0\<close> or digits without a leading zero, an optional
  fraction, an optional exponent.
\<close>

definition parse_exponent :: "string \<Rightarrow> (int \<times> string) option" where
  "parse_exponent s =
     (case s of
        [] \<Rightarrow> Some (0, [])
      | c # r \<Rightarrow>
          if c = CHR ''e'' \<or> c = CHR ''E'' then
            (let neg = (r \<noteq> [] \<and> hd r = CHR ''-'');
                 r1 = (if r \<noteq> [] \<and> (hd r = CHR ''-'' \<or> hd r = CHR ''+'') then tl r else r);
                 ds = takeWhile is_digit r1
             in if ds = [] then None
                else Some ((if neg then - int (nat_of_string ds) else int (nat_of_string ds)),
                           dropWhile is_digit r1))
          else Some (0, s))"

definition parse_fraction :: "string \<Rightarrow> (string \<times> string) option" where
  "parse_fraction s =
     (case s of
        [] \<Rightarrow> Some ([], [])
      | c # r \<Rightarrow>
          if c = CHR ''.'' then
            (let ds = takeWhile is_digit r
             in if ds = [] then None else Some (ds, dropWhile is_digit r))
          else Some ([], s))"

definition parse_number :: "string \<Rightarrow> (json \<times> string) option" where
  "parse_number s =
     (let neg = (s \<noteq> [] \<and> hd s = CHR ''-'');
          r = (if neg then tl s else s)
      in if r = [] \<or> \<not> is_digit (hd r) then None
         else
           (let ip = (if hd r = CHR ''0'' then ''0'' else takeWhile is_digit r);
                r1 = drop (length ip) r
            in case parse_fraction r1 of
                 None \<Rightarrow> None
               | Some (fp, r2) \<Rightarrow>
                   (case parse_exponent r2 of
                      None \<Rightarrow> None
                    | Some (ex, r3) \<Rightarrow>
                        (let mant = int (nat_of_string (ip @ fp));
                             e10 = ex - int (length fp)
                         in case norm_dec ((if neg then - mant else mant) * 10 ^ nat e10)
                                   (nat (- e10)) of
                              (m, d) \<Rightarrow> Some (JNum m d, r3)))))"

definition parse_literal :: "string \<Rightarrow> json \<Rightarrow> string \<Rightarrow> (json \<times> string) option" where
  "parse_literal lit v s =
     (if take (length lit) s = lit then Some (v, drop (length lit) s) else None)"

fun parse_value :: "nat \<Rightarrow> string \<Rightarrow> (json \<times> string) option"
  and parse_elements :: "nat \<Rightarrow> string \<Rightarrow> json list \<Rightarrow> (json \<times> string) option"
  and parse_members :: "nat \<Rightarrow> string \<Rightarrow> (string \<times> json) list \<Rightarrow> (json \<times> string) option"
where
  "parse_value 0 s = None"
| "parse_value (Suc f) s =
     (case skip_ws s of
        [] \<Rightarrow> None
      | c # r \<Rightarrow>
          if c = CHR ''{'' then
            (case skip_ws r of
               [] \<Rightarrow> None
             | c1 # r1 \<Rightarrow> if c1 = CHR ''}'' then Some (JObj [], r1) else parse_members f r [])
          else if c = CHR ''['' then
            (case skip_ws r of
               [] \<Rightarrow> None
             | c1 # r1 \<Rightarrow> if c1 = CHR '']'' then Some (JArr [], r1) else parse_elements f r [])
          else if c = CHR 0x22 then
            (case parse_string r of None \<Rightarrow> None | Some (str, r1) \<Rightarrow> Some (JStr str, r1))
          else if c = CHR ''t'' then parse_literal ''true'' (JBool True) (c # r)
          else if c = CHR ''f'' then parse_literal ''false'' (JBool False) (c # r)
          else if c = CHR ''n'' then parse_literal ''null'' JNull (c # r)
          else parse_number (c # r))"
| "parse_elements 0 s acc = None"
| "parse_elements (Suc f) s acc =
     (case parse_value f s of
        None \<Rightarrow> None
      | Some (v, r) \<Rightarrow>
          (case skip_ws r of
             [] \<Rightarrow> None
           | c # r1 \<Rightarrow>
               if c = CHR '','' then parse_elements f r1 (acc @ [v])
               else if c = CHR '']'' then Some (JArr (acc @ [v]), r1)
               else None))"
| "parse_members 0 s acc = None"
| "parse_members (Suc f) s acc =
     (case skip_ws s of
        [] \<Rightarrow> None
      | q # r \<Rightarrow>
          if q \<noteq> CHR 0x22 then None
          else
            (case parse_string r of
               None \<Rightarrow> None
             | Some (k, r1) \<Rightarrow>
                 (case skip_ws r1 of
                    [] \<Rightarrow> None
                  | c # r2 \<Rightarrow>
                      if c \<noteq> CHR '':'' then None
                      else
                        (case parse_value f r2 of
                           None \<Rightarrow> None
                         | Some (v, r3) \<Rightarrow>
                             (case skip_ws r3 of
                                [] \<Rightarrow> None
                              | c1 # r4 \<Rightarrow>
                                  if c1 = CHR '','' then parse_members f r4 (obj_set k v acc)
                                  else if c1 = CHR ''}'' then Some (JObj (obj_set k v acc), r4)
                                  else None)))))"

definition JSON_parse :: "string \<Rightarrow> string + json" where
  "JSON_parse s =
     (case parse_value (2 * length s + 2) s of
        None \<Rightarrow> Inl ''SyntaxError''
      | Some (v, r) \<Rightarrow> if skip_ws r = [] then Inr v else Inl ''SyntaxError'')"

section \<open>Auxiliary notions for the statements\<close>

text \<open>A row value as the JSON value it is.\<close>

fun json_of_prim :: "prim \<Rightarrow> json" where
  "json_of_prim PNull = JNull"
| "json_of_prim (PBool b) = JBool b"
| "json_of_prim (PNum m d) = JNum m d"
| "json_of_prim (PStr s) = JStr s"

text \<open>\<^verbatim>\<open>parsed !== null && typeof parsed === "object" && !Array.isArray(parsed)\<close>.\<close>

fun plain_object :: "json \<Rightarrow> bool" where
  "plain_object (JObj kvs) = True"
| "plain_object JNull = False"
| "plain_object (JBool b) = False"
| "plain_object (JNum m d) = False"
| "plain_object (JStr s) = False"
| "plain_object (JArr xs) = False"

text \<open>
  A host for the examples. Its parser is the reference \<^verbatim>\<open>JSON.parse\<close>. Its patcher
  refuses every path through the key \<^verbatim>\<open>locked\<close> and otherwise writes the edit it
  was asked for behind the text, so that the text shows which edits were applied and in
  which order. Its graph has a root node and a node at \<^verbatim>\<open>["user"]\<close>, whatever the text.
\<close>

definition demo_modify ::
  "string \<Rightarrow> segment list \<Rightarrow> json option \<Rightarrow> string + (segment list \<times> json option)"
where
  "demo_modify doc path v =
     (if Key ''locked'' \<in> set path then Inl ''Can not resolve path'' else Inr (path, v))"

definition demo_applyEdits :: "string \<Rightarrow> segment list \<times> json option \<Rightarrow> string + string" where
  "demo_applyEdits doc e =
     Inr (doc @ (case snd e of None \<Rightarrow> '' -'' | Some v \<Rightarrow> '' +'') @ jsonPathToString (Some (fst e)))"

definition demo_graph :: "string \<Rightarrow> NodeData list" where
  "demo_graph doc =
     [\<lparr>ntext = [\<lparr>rkey = Some ''user'', rvalue = PNull, rtype = TObject\<rparr>], npath = Some []\<rparr>,
      \<lparr>ntext = [\<lparr>rkey = Some ''name'', rvalue = PStr ''Ann'', rtype = TString\<rparr>],
       npath = Some [Key ''user'']\<rparr>]"

definition demo_host :: "(segment list \<times> json option) host" where
  "demo_host =
     \<lparr>h_parse = JSON_parse, h_modify = demo_modify, h_applyEdits = demo_applyEdits,
      h_graph = demo_graph\<rparr>"

definition demo_state :: state where
  "demo_state =
     \<lparr>jsonText = ''doc'', contents = ''doc'', hasChanges = False, nodes = [],
      selectedNode = None, error = None, opened = True\<rparr>"

definition demo_node :: NodeData where
  "demo_node =
     \<lparr>ntext = [\<lparr>rkey = Some ''a'', rvalue = PNum 1 0, rtype = TNumber\<rparr>,
               \<lparr>rkey = Some ''locked'', rvalue = PStr ''x'', rtype = TString\<rparr>],
      npath = Some [Key ''user'']\<rparr>"

definition demo_empty_key_node :: NodeData where
  "demo_empty_key_node =
     \<lparr>ntext = [\<lparr>rkey = Some '''', rvalue = PNum 1 0, rtype = TNumber\<rparr>,
               \<lparr>rkey = Some ''a'', rvalue = PNum 2 0, rtype = TNumber\<rparr>],
      npath = Some []\<rparr>"

definition demo_locked_leaf :: NodeData where
  "demo_locked_leaf =
     \<lparr>ntext = [\<lparr>rkey = None, rvalue = PNum 1 0, rtype = TNumber\<rparr>],
      npath = Some [Key ''locked'']\<rparr>"

text \<open>The row \<^verbatim>\<open>{key: null, value: v, type: typeOf(v)}\<close> of a leaf that holds \<open>v\<close>.\<close>

definition leaf_row :: "prim \<Rightarrow> NodeRow" where
  "leaf_row v = \<lparr>rkey = None, rvalue = v, rtype = jsonType (json_of_prim v)\<rparr>"

text \<open>The canonical form of a number \<open>m / 10 ^ d\<close>: no trailing zero behind the point.\<close>

definition canonical :: "int \<Rightarrow> nat \<Rightarrow> bool" where
  "canonical m d = (d = 0 \<or> m mod 10 \<noteq> 0)"

definition demo_single_empty_key :: NodeData where
  "demo_single_empty_key =
     \<lparr>ntext = [\<lparr>rkey = Some '''', rvalue = PNum 1 0, rtype = TNumber\<rparr>],
      npath = Some [Key ''n'']\<rparr>"

definition demo_locked_empty_key :: NodeData where
  "demo_locked_empty_key =
     \<lparr>ntext = [\<lparr>rkey = Some '''', rvalue = PNum 1 0, rtype = TNumber\<rparr>],
      npath = Some [Key ''locked'']\<rparr>"

section \<open>Rendering of numbers and joined lists\<close>

lemma string_of_nat_not_Nil: "string_of_nat n \<noteq> []"
  by (subst string_of_nat.simps) simp

lemma length_string_of_nat_le: "n < 10 ^ k \<Longrightarrow> 0 < k \<Longrightarrow> length (string_of_nat n) \<le> k"
proof (induction n arbitrary: k rule: string_of_nat.induct)
  case (1 n)
  show ?case
  proof (cases "n < 10")
    case True
    then show ?thesis using "1.prems" by (subst string_of_nat.simps) simp
  next
    case False
    then obtain j where k: "k = Suc j" and j: "0 < j"
      using "1.prems" by (cases k; cases "k - 1") auto
    have "n div 10 < 10 ^ j" using "1.prems" k by (simp add: less_mult_imp_div_less mult.commute)
    then have "length (string_of_nat (n div 10)) \<le> j" using "1.IH" False j by simp
    then show ?thesis using False k by (subst string_of_nat.simps) simp
  qed
qed

lemma strip_zeros_pad:
  "strip_zeros s @ replicate (length s - length (strip_zeros s)) CHR ''0'' = s"
proof -
  have tw: "takeWhile (\<lambda>c. c = CHR ''0'') xs = replicate (length (takeWhile (\<lambda>c. c = CHR ''0'') xs)) CHR ''0''" for xs
    by (induction xs) auto
  have "rev s = takeWhile (\<lambda>c. c = CHR ''0'') (rev s) @ dropWhile (\<lambda>c. c = CHR ''0'') (rev s)"
    by simp
  then have "s = rev (dropWhile (\<lambda>c. c = CHR ''0'') (rev s)) @ rev (takeWhile (\<lambda>c. c = CHR ''0'') (rev s))"
    by (metis rev_append rev_rev_ident)
  moreover have "length s - length (strip_zeros s) = length (takeWhile (\<lambda>c. c = CHR ''0'') (rev s))"
    unfolding strip_zeros_def
    by (metis (no_types, lifting) add_diff_cancel_right' length_append length_rev takeWhile_dropWhile_id)
  moreover have "rev (takeWhile (\<lambda>c. c = CHR ''0'') (rev s)) = replicate (length (takeWhile (\<lambda>c. c = CHR ''0'') (rev s))) CHR ''0''"
    using tw[of "rev s"] by (metis rev_replicate)
  ultimately show ?thesis unfolding strip_zeros_def by metis
qed

lemma length_strip_zeros_le: "length (strip_zeros s) \<le> length s"
  unfolding strip_zeros_def by (metis length_dropWhile_le length_rev)

lemma pos_toString_plain:
  assumes "a < 10 ^ 21"
  shows "pos_toString a 0 = string_of_nat a"
proof -
  have l: "length (string_of_nat a) \<le> 21" using assms length_string_of_nat_le[of a 21] by simp
  have "int (length (strip_zeros (string_of_nat a))) \<le> int (length (string_of_nat a))"
    using length_strip_zeros_le by simp
  then show ?thesis
    using l strip_zeros_pad[of "string_of_nat a"] unfolding pos_toString_def Let_def
    by (simp add: nat_diff_distrib')
qed

lemma Number_toString_int:
  assumes "\<bar>n\<bar> < 10 ^ 21"
  shows "Number_toString n 0 = (if n < 0 then ''-'' else []) @ string_of_nat (nat \<bar>n\<bar>)"
proof (cases "n = 0")
  case True
  then show ?thesis by (simp add: Number_toString_def string_of_nat.simps digit_char_def)
next
  case False
  have "nat \<bar>n\<bar> < 10 ^ 21" using assms by (simp add: nat_less_iff)
  then show ?thesis using False by (simp add: Number_toString_def pos_toString_plain)
qed

lemma Number_toString_nat: "n < 10 ^ 21 \<Longrightarrow> Number_toString (int n) 0 = string_of_nat n"
  using Number_toString_int[of "int n"] by (simp add: of_nat_less_numeral_power_cancel_iff)

lemma join_brackets:
  "xs \<noteq> [] \<Longrightarrow> ''['' @ join '']['' xs @ '']'' = concat (map (\<lambda>x. ''['' @ x @ '']'') xs)"
  by (induction "'']['' :: string" xs rule: join.induct) auto

section \<open>Path label\<close>

text \<open>
  Claim C9. The label of the empty path (and of an absent path) is the root sentinel
  \<^verbatim>\<open>$\<close>. The label of a non-empty path is the sentinel followed by every segment in
  brackets, a string segment between double quotes and a numeric segment bare (its
  decimal digits, for every index below \<open>10 ^ 21\<close>); the path
  \<^verbatim>\<open>["customer", 0, "id"]\<close> is labelled \<^verbatim>\<open>$["customer"][0]["id"]\<close>.
\<close>

theorem jsonPathToString_label:
  "jsonPathToString None = ''$''
   \<and> jsonPathToString (Some []) = ''$''
   \<and> jsonPathToString (Some (seg # p))
       = ''$'' @ concat (map (\<lambda>x. ''['' @ seg_label x @ '']'') (seg # p))
   \<and> seg_label (Key k) = [CHR 0x22] @ k @ [CHR 0x22]
   \<and> (n < 10 ^ 21 \<longrightarrow> seg_label (Idx n) = string_of_nat n)
   \<and> jsonPathToString (Some [Key ''customer'', Idx 0, Key ''id''])
       = ''$['' @ [CHR 0x22] @ ''customer'' @ [CHR 0x22] @ ''][0]['' @ [CHR 0x22] @ ''id''
         @ [CHR 0x22] @ '']''"
proof -
  have "map seg_label (seg # p) \<noteq> []" by simp
  then have "''['' @ join '']['' (map seg_label (seg # p)) @ '']''
      = concat (map (\<lambda>x. ''['' @ x @ '']'') (map seg_label (seg # p)))"
    by (rule join_brackets)
  then have general: "jsonPathToString (Some (seg # p))
      = ''$'' @ concat (map (\<lambda>x. ''['' @ seg_label x @ '']'') (seg # p))"
    by (simp add: jsonPathToString_def comp_def)
  have example: "jsonPathToString (Some [Key ''customer'', Idx 0, Key ''id''])
       = ''$['' @ [CHR 0x22] @ ''customer'' @ [CHR 0x22] @ ''][0]['' @ [CHR 0x22] @ ''id''
         @ [CHR 0x22] @ '']''"
    by (simp add: jsonPathToString_def seg_label_def Number_toString_def)
  show ?thesis
    using general example
    by (simp add: jsonPathToString_def seg_label_def Number_toString_nat)
qed

theorem jsonPathToString_label_witness:
  "(7::nat) < 10 ^ 21 \<and> seg_label (Idx 7) = ''7''
   \<and> jsonPathToString (Some [Key ''a'', Idx 7]) = ''$['' @ [CHR 0x22] @ ''a'' @ [CHR 0x22] @ ''][7]''"
  using jsonPathToString_label [of "Key ''a''" "[Idx 7]" "''a''" 7]
  by (simp add: seg_label_def string_of_nat.simps digit_char_def)

section \<open>Row Model Parser\<close>

lemma json_of_prim_scalar:
  "jsonType v \<noteq> TObject \<Longrightarrow> jsonType v \<noteq> TArray \<Longrightarrow> json_of_prim (scalar v) = v"
  by (cases v) simp_all

text \<open>
  Claim C7. Whenever the text parses, the rows of a non-array object are one row per own
  property, in order, each with the type inferred from its value (\<^verbatim>\<open>null\<close> to null, an
  array to array, a number to number, a boolean to boolean, an object to object, a
  string to string) and with the value \<^verbatim>\<open>null\<close> when that type is object or array;
  the rows of any other parsed value are exactly one row without a key, of the inferred
  type, whose value is the parsed value, or \<^verbatim>\<open>null\<close> for an array.
\<close>

theorem parse_rows_inference:
  assumes "parse txt = Inr parsed"
  shows "(parsed = JObj kvs \<longrightarrow>
            parse_rows parse txt
              = Inr (map (\<lambda>(k, v). \<lparr>rkey = Some k,
                                    rvalue = (if jsonType v = TObject \<or> jsonType v = TArray
                                              then PNull else scalar v),
                                    rtype = jsonType v\<rparr>) kvs))
       \<and> (\<not> plain_object parsed \<longrightarrow>
            parse_rows parse txt
              = Inr [\<lparr>rkey = None,
                      rvalue = (if jsonType parsed = TObject \<or> jsonType parsed = TArray
                                then PNull else scalar parsed),
                      rtype = jsonType parsed\<rparr>])
       \<and> (jsonType v \<noteq> TObject \<and> jsonType v \<noteq> TArray \<longrightarrow> json_of_prim (scalar v) = v)
       \<and> jsonType JNull = TNull \<and> jsonType (JArr xs) = TArray
       \<and> jsonType (JNum m d) = TNumber \<and> jsonType (JBool b) = TBoolean
       \<and> jsonType (JObj ms) = TObject \<and> jsonType (JStr str) = TString"
proof -
  have obj: "parsed = JObj kvs \<longrightarrow>
            parse_rows parse txt
              = Inr (map (\<lambda>(k, v). \<lparr>rkey = Some k,
                                    rvalue = (if jsonType v = TObject \<or> jsonType v = TArray
                                              then PNull else scalar v),
                                    rtype = jsonType v\<rparr>) kvs)"
    using assms
    by (auto simp: parse_rows_def rows_of_parsed_def mk_row_def Let_def)
  have other: "\<not> plain_object parsed \<longrightarrow>
            parse_rows parse txt
              = Inr [\<lparr>rkey = None,
                      rvalue = (if jsonType parsed = TObject \<or> jsonType parsed = TArray
                                then PNull else scalar parsed),
                      rtype = jsonType parsed\<rparr>]"
    using assms
    by (cases parsed) (simp_all add: parse_rows_def rows_of_parsed_def mk_row_def Let_def)
  show ?thesis
    using obj other json_of_prim_scalar[of v] by simp
qed

lemma demo_parse_object:
  "JSON_parse (''{'' @ [CHR 0x22] @ ''a'' @ [CHR 0x22] @ '': 1, '' @ [CHR 0x22] @ ''b'' @ [CHR 0x22] @ '': [2]}'')
     = Inr (JObj [(''a'', JNum 1 0), (''b'', JArr [JNum 2 0])])"
  by code_simp

lemma demo_parse_array: "JSON_parse ''[7]'' = Inr (JArr [JNum 7 0])"
  by code_simp

theorem parse_rows_inference_witness:
  "parse_rows JSON_parse (''{'' @ [CHR 0x22] @ ''a'' @ [CHR 0x22] @ '': 1, '' @ [CHR 0x22] @ ''b'' @ [CHR 0x22] @ '': [2]}'')
     = Inr [\<lparr>rkey = Some ''a'', rvalue = PNum 1 0, rtype = TNumber\<rparr>,
            \<lparr>rkey = Some ''b'', rvalue = PNull, rtype = TArray\<rparr>]
   \<and> parse_rows JSON_parse ''[7]'' = Inr [\<lparr>rkey = None, rvalue = PNull, rtype = TArray\<rparr>]
   \<and> json_of_prim (scalar (JStr ''x'')) = JStr ''x''"
proof -
  note obj = parse_rows_inference
    [of JSON_parse _ "JObj [(''a'', JNum 1 0), (''b'', JArr [JNum 2 0])]"
        "[(''a'', JNum 1 0), (''b'', JArr [JNum 2 0])]" "JStr ''x''", OF demo_parse_object]
  note arr = parse_rows_inference [of JSON_parse "''[7]''" "JArr [JNum 7 0]", OF demo_parse_array]
  show ?thesis using obj arr by simp
qed

section \<open>Validation errors and the absent node\<close>

lemma demo_parse_invalid: "h_parse demo_host ''{name: Ann}'' = Inl ''SyntaxError''"
  by code_simp

lemma demo_parse_five: "h_parse demo_host ''5'' = Inr (JNum 5 0)"
  by code_simp

text \<open>
  Claim C4. When the edited text is not valid JSON, either save flow changes nothing
  but the session error, which becomes the parser's message: the editor stays as it
  was and the Document is untouched. When the text parses, the editor is closed and the
  session error is left as it was, whatever the node and whether the patch commits or
  falls back; so an editor that is still open after a save means the parse failed.
\<close>

theorem handleSave_validation:
  "(h_parse h txt = Inl msg \<longrightarrow>
      handleSave h nodeData txt s = s\<lparr>error := Some msg\<rparr>
      \<and> handleSave_inline h nodeData txt s = s\<lparr>error := Some msg\<rparr>
      \<and> jsonText (handleSave h nodeData txt s) = jsonText s
      \<and> opened (handleSave h nodeData txt s) = opened s)
   \<and> (h_parse h txt = Inr parsed \<longrightarrow>
      \<not> opened (handleSave h nodeData txt s)
      \<and> \<not> opened (handleSave_inline h nodeData txt s)
      \<and> error (handleSave h nodeData txt s) = error s
      \<and> error (handleSave_inline h nodeData txt s) = error s)"
proof -
  have bad: "h_parse h txt = Inl msg \<Longrightarrow>
      handleSave h nodeData txt s = s\<lparr>error := Some msg\<rparr>
      \<and> handleSave_inline h nodeData txt s = s\<lparr>error := Some msg\<rparr>"
    by (simp add: handleSave_def handleSave_inline_def setError_def)
  have good1: "h_parse h txt = Inr parsed \<Longrightarrow>
      \<not> opened (handleSave h nodeData txt s) \<and> error (handleSave h nodeData txt s) = error s"
    by (simp add: handleSave_def onClose_def reselect_def setSelectedNode_def setJson_def
          split: option.splits sum.splits)
  have good2: "h_parse h txt = Inr parsed \<Longrightarrow>
      \<not> opened (handleSave_inline h nodeData txt s)
      \<and> error (handleSave_inline h nodeData txt s) = error s"
    by (simp add: handleSave_inline_def onClose_def reselect_def setSelectedNode_def
          setJson_def setContents_def Let_def split: option.splits sum.splits)
  show ?thesis using bad good1 good2 by auto
qed

theorem handleSave_validation_witness:
  "handleSave demo_host (Some \<lparr>ntext = [], npath = None\<rparr>) ''{name: Ann}'' demo_state
     = demo_state\<lparr>error := Some ''SyntaxError''\<rparr>
   \<and> opened (handleSave demo_host (Some \<lparr>ntext = [], npath = None\<rparr>) ''{name: Ann}'' demo_state)
   \<and> \<not> opened (handleSave demo_host (Some \<lparr>ntext = [], npath = None\<rparr>) ''5'' demo_state)"
proof -
  note bad = handleSave_validation
    [of demo_host "''{name: Ann}''" "''SyntaxError''" "Some \<lparr>ntext = [], npath = None\<rparr>" demo_state]
  note good = handleSave_validation
    [of demo_host "''5''" _ "Some \<lparr>ntext = [], npath = None\<rparr>" demo_state "JNum 5 0"]
  show ?thesis using bad good demo_parse_invalid demo_parse_five
    by (simp add: demo_state_def)
qed

text \<open>
  Claim C10. With an absent node and a text that parses, either save flow only closes
  the editor: the Document, the mirror, the node list and the selection are as before,
  and the result does not depend on the patcher, which is never called. With a text
  that does not parse, the flow sets the session error and changes nothing else, as it
  does for a present node.
\<close>

theorem handleSave_absent_node:
  "(h_parse h txt = Inr parsed \<longrightarrow>
      handleSave h None txt s = s\<lparr>opened := False\<rparr>
      \<and> handleSave_inline h None txt s = s\<lparr>opened := False\<rparr>)
   \<and> (h_parse h txt = Inl msg \<longrightarrow>
      handleSave h None txt s = s\<lparr>error := Some msg\<rparr>
      \<and> handleSave_inline h None txt s = s\<lparr>error := Some msg\<rparr>
      \<and> handleSave h None txt s = handleSave h (Some nd) txt s
      \<and> handleSave_inline h None txt s = handleSave_inline h (Some nd) txt s)
   \<and> handleSave (h\<lparr>h_modify := m, h_applyEdits := a\<rparr>) None txt s = handleSave h None txt s
   \<and> handleSave_inline (h\<lparr>h_modify := m, h_applyEdits := a\<rparr>) None txt s
       = handleSave_inline h None txt s"
  by (simp add: handleSave_def handleSave_inline_def setError_def onClose_def Let_def
        split: sum.splits)

theorem handleSave_absent_node_witness:
  "handleSave demo_host None ''5'' demo_state = demo_state\<lparr>opened := False\<rparr>
   \<and> handleSave_inline demo_host None ''5'' demo_state = demo_state\<lparr>opened := False\<rparr>
   \<and> handleSave demo_host None ''{name: Ann}'' demo_state
       = demo_state\<lparr>error := Some ''SyntaxError''\<rparr>"
proof -
  note good = handleSave_absent_node [of demo_host "''5''" "JNum 5 0" demo_state]
  note bad = handleSave_absent_node [of demo_host "''{name: Ann}''" _ demo_state "''SyntaxError''"]
  show ?thesis using good bad demo_parse_invalid demo_parse_five by simp
qed

section \<open>Atomic failure of a field-set save\<close>

lemma patch_keys_append:
  "patch_keys h p obj cur (xs @ ys)
     = (case patch_keys h p obj cur xs of Inl e \<Rightarrow> Inl e | Inr mid \<Rightarrow> patch_keys h p obj mid ys)"
  by (induction xs arbitrary: cur) (auto split: sum.splits)

lemma patch_keys_foldl:
  "(case acc of Inl e \<Rightarrow> Inl e | Inr cur \<Rightarrow> patch_keys h p obj cur ks)
     = foldl (\<lambda>acc key. case acc of Inl e \<Rightarrow> Inl e | Inr doc \<Rightarrow> patch h doc (p @ [Key key]) (map_of obj key))
         acc ks"
proof (induction ks arbitrary: acc)
  case Nil
  then show ?case by (simp split: sum.splits)
next
  case (Cons k ks)
  show ?case
  proof (cases acc)
    case (Inl e)
    then show ?thesis using Cons.IH[of "Inl e"] by simp
  next
    case (Inr cur)
    then show ?thesis
      using Cons.IH[of "patch h cur (p @ [Key k]) (map_of obj k)"]
      by (simp split: sum.splits)
  qed
qed

text \<open>
  Claim C2. When a field-set save fails partway (the keys before some key are patched,
  and the edit of that key raises), either flow leaves the Document text as it was
  before the call: the texts computed for the earlier keys are dropped. The node list
  and the mirror are untouched as well; the flow falls back to selecting a copy of the
  node with the rows of the parsed value, and closes the editor.
\<close>

theorem handleSave_atomic:
  assumes "h_parse h txt = Inr parsed" and "\<not> isPrimitive nd"
    and "edit_keys nd parsed = ks @ key # rest"
    and "patch_keys h (path_of nd) (newObj_of parsed) (jsonText s) ks = Inr mid"
    and "patch h mid (path_of nd @ [Key key]) (map_of (newObj_of parsed) key) = Inl err"
  shows "jsonText (handleSave h (Some nd) txt s) = jsonText s
       \<and> jsonText (handleSave_inline h (Some nd) txt s) = jsonText s
       \<and> handleSave h (Some nd) txt s
           = s\<lparr>selectedNode := Some (nd\<lparr>ntext := fallback_rows False parsed\<rparr>), opened := False\<rparr>
       \<and> handleSave_inline h (Some nd) txt s
           = s\<lparr>selectedNode := Some (nd\<lparr>ntext := rows_of_parsed parsed\<rparr>), opened := False\<rparr>"
proof -
  have "patched h nd parsed (jsonText s) = Inl err"
    using assms by (simp add: patched_def patch_keys_append)
  then show ?thesis
    using assms(1,2)
    by (simp add: handleSave_def handleSave_inline_def onClose_def setSelectedNode_def Let_def)
qed


lemma demo_parse_a2: \<open>h_parse demo_host ''{"a": 2}'' = Inr (JObj [(''a'', JNum 2 0)])\<close>
  by code_simp

theorem handleSave_atomic_witness:
  \<open>patch_keys demo_host (path_of demo_node) (newObj_of (JObj [(''a'', JNum 2 0)]))
       (jsonText demo_state) [''a'']
     = Inr ''doc +$["user"]["a"]''
   \<and> jsonText (handleSave demo_host (Some demo_node) ''{"a": 2}'' demo_state) = ''doc''
   \<and> jsonText (handleSave_inline demo_host (Some demo_node) ''{"a": 2}'' demo_state) = ''doc''
   \<and> selectedNode (handleSave demo_host (Some demo_node) ''{"a": 2}'' demo_state)
       = Some (demo_node\<lparr>ntext := [\<lparr>rkey = Some ''a'', rvalue = PNum 2 0, rtype = TNumber\<rparr>]\<rparr>)\<close>
proof -
  have prim: "\<not> isPrimitive demo_node"
    by (simp add: isPrimitive_def demo_node_def)
  have keys: "edit_keys demo_node (JObj [(''a'', JNum 2 0)]) = [''a''] @ ''locked'' # []"
    by code_simp
  have first: \<open>patch_keys demo_host (path_of demo_node) (newObj_of (JObj [(''a'', JNum 2 0)]))
       (jsonText demo_state) [''a''] = Inr ''doc +$["user"]["a"]''\<close>
    by code_simp
  have second: \<open>patch demo_host ''doc +$["user"]["a"]'' (path_of demo_node @ [Key ''locked''])
       (map_of (newObj_of (JObj [(''a'', JNum 2 0)])) ''locked'') = Inl ''Can not resolve path''\<close>
    by code_simp
  have rows: "fallback_rows False (JObj [(''a'', JNum 2 0)])
      = [\<lparr>rkey = Some ''a'', rvalue = PNum 2 0, rtype = TNumber\<rparr>]"
    by (simp add: fallback_rows_def mk_row_def)
  show ?thesis
    using handleSave_atomic [OF demo_parse_a2 prim keys first second] first rows
    by (simp add: demo_state_def)
qed

section \<open>Field-set save\<close>

lemma set_Set_from: "set (Set_from xs) = set xs"
  by (simp add: Set_from_def)

lemma distinct_Set_from: "distinct (Set_from xs)"
  by (simp add: Set_from_def)

lemma set_editableKeys:
  "set (editableKeys nd)
     = {k. k \<noteq> [] \<and> (\<exists>r \<in> set (ntext nd). rkey r = Some k \<and> rtype r \<noteq> TObject \<and> rtype r \<noteq> TArray)}"
proof (rule set_eqI)
  fix k
  show "k \<in> set (editableKeys nd)
      \<longleftrightarrow> k \<in> {k. k \<noteq> [] \<and> (\<exists>r \<in> set (ntext nd). rkey r = Some k \<and> rtype r \<noteq> TObject \<and> rtype r \<noteq> TArray)}"
  proof
    assume "k \<in> set (editableKeys nd)"
    then obtain r where r: "r \<in> set (ntext nd)" "rtype r \<noteq> TArray" "rtype r \<noteq> TObject"
        "truthy_key (rkey r)" "k = the (rkey r)"
      by (auto simp: editableKeys_def)
    from r(4,5) have "rkey r = Some k \<and> k \<noteq> []"
      by (cases "rkey r") (simp_all add: truthy_key_def)
    with r(1,2,3) show "k \<in> {k. k \<noteq> [] \<and> (\<exists>r \<in> set (ntext nd). rkey r = Some k \<and> rtype r \<noteq> TObject \<and> rtype r \<noteq> TArray)}"
      by blast
  next
    assume "k \<in> {k. k \<noteq> [] \<and> (\<exists>r \<in> set (ntext nd). rkey r = Some k \<and> rtype r \<noteq> TObject \<and> rtype r \<noteq> TArray)}"
    then obtain r where r: "k \<noteq> []" "r \<in> set (ntext nd)" "rkey r = Some k"
        "rtype r \<noteq> TObject" "rtype r \<noteq> TArray"
      by blast
    then have "r \<in> set (filter (\<lambda>r. rtype r \<noteq> TArray \<and> rtype r \<noteq> TObject \<and> truthy_key (rkey r)) (ntext nd))"
      by (simp add: truthy_key_def)
    then have "the (rkey r) \<in> set (editableKeys nd)"
      unfolding editableKeys_def by (metis (no_types, lifting) image_eqI set_map)
    then show "k \<in> set (editableKeys nd)" using r(3) by simp
  qed
qed

lemma map_of_present:
  "key \<in> fst ` set obj \<Longrightarrow> \<exists>v. map_of obj key = Some v \<and> (key, v) \<in> set obj"
  by (metis map_of_SomeD map_of_eq_None_iff not_Some_eq)

lemma isPrimitive_iff:
  "isPrimitive nd \<longleftrightarrow> (\<exists>row. ntext nd = [row] \<and> (rkey row = None \<or> rkey row = Some []))"
proof
  assume "isPrimitive nd"
  then have len: "length (ntext nd) = 1" and key: "\<not> truthy_key (rkey (hd (ntext nd)))"
    by (simp_all add: isPrimitive_def)
  from len obtain row where row: "ntext nd = [row]"
    by (cases "ntext nd") auto
  then have "rkey row = None \<or> rkey row = Some []"
    using key by (cases "rkey row") (simp_all add: truthy_key_def)
  then show "\<exists>row. ntext nd = [row] \<and> (rkey row = None \<or> rkey row = Some [])"
    using row by blast
next
  assume "\<exists>row. ntext nd = [row] \<and> (rkey row = None \<or> rkey row = Some [])"
  then show "isPrimitive nd"
    by (auto simp: isPrimitive_def truthy_key_def)
qed

text \<open>
  Claim C3, as amended. The code saves a node as a whole value exactly when the node
  has a single row whose key is \<^verbatim>\<open>null\<close> or the empty string: then the one edit sets
  the parsed value at the node's path. For every other node and a text that parses, the
  keys edited are, without repetition, the non-empty keys of the node's rows whose type
  is neither object nor array, together with the keys of the edited object, which is
  the parsed value when that is a plain object and the empty object otherwise. The
  edits run in sequence over these keys, each on the text the previous one returned and
  stopping at the first failure: a key of the edited object is set to its value at the
  node's path extended by the key, any other key is deleted there (the patcher is given
  no value). When all succeed the resulting text becomes the Document. Saving
  \<^verbatim>\<open>{"a":1}\<close> on a node whose editable keys are \<^verbatim>\<open>a\<close> and \<^verbatim>\<open>b\<close> sets \<^verbatim>\<open>a\<close> to 1 and
  then deletes \<^verbatim>\<open>b\<close>.
\<close>

theorem field_set_save:
  assumes "h_parse h txt = Inr parsed" and "\<not> isPrimitive nd"
  shows "set (edit_keys nd parsed)
           = {k. k \<noteq> [] \<and> (\<exists>r \<in> set (ntext nd).
                   rkey r = Some k \<and> rtype r \<noteq> TObject \<and> rtype r \<noteq> TArray)}
             \<union> fst ` set (newObj_of parsed)
       \<and> distinct (edit_keys nd parsed)
       \<and> (plain_object parsed \<longrightarrow> parsed = JObj (newObj_of parsed))
       \<and> (\<not> plain_object parsed \<longrightarrow> newObj_of parsed = [])
       \<and> patched h nd parsed (jsonText s)
           = foldl (\<lambda>acc key. case acc of
                                 Inl e \<Rightarrow> Inl e
                               | Inr doc \<Rightarrow> patch h doc (path_of nd @ [Key key])
                                              (map_of (newObj_of parsed) key))
               (Inr (jsonText s)) (edit_keys nd parsed)
       \<and> (key \<in> fst ` set (newObj_of parsed) \<longrightarrow>
            (\<exists>v. map_of (newObj_of parsed) key = Some v \<and> (key, v) \<in> set (newObj_of parsed)))
       \<and> (key \<notin> fst ` set (newObj_of parsed) \<longrightarrow> map_of (newObj_of parsed) key = None)
       \<and> (patched h nd parsed (jsonText s) = Inr doc' \<longrightarrow>
            jsonText (handleSave h (Some nd) txt s) = doc'
            \<and> jsonText (handleSave_inline h (Some nd) txt s) = doc')
       \<and> patched h \<lparr>ntext = [\<lparr>rkey = Some ''a'', rvalue = va, rtype = TNumber\<rparr>,
                               \<lparr>rkey = Some ''b'', rvalue = vb, rtype = TString\<rparr>],
                      npath = Some p\<rparr> (JObj [(''a'', JNum 1 0)]) cur
           = (case patch h cur (p @ [Key ''a'']) (Some (JNum 1 0)) of
                Inl e \<Rightarrow> Inl e
              | Inr doc \<Rightarrow> patch h doc (p @ [Key ''b'']) None)
       \<and> (isPrimitive node
            \<longleftrightarrow> (\<exists>row. ntext node = [row] \<and> (rkey row = None \<or> rkey row = Some [])))
       \<and> (isPrimitive node \<longrightarrow>
            patched h node parsed cur = patch h cur (path_of node) (Some parsed))"
proof -
  have whole: "isPrimitive node \<longrightarrow>
            patched h node parsed cur = patch h cur (path_of node) (Some parsed)"
    by (simp add: patched_def)
  have keys: "set (edit_keys nd parsed)
           = {k. k \<noteq> [] \<and> (\<exists>r \<in> set (ntext nd).
                   rkey r = Some k \<and> rtype r \<noteq> TObject \<and> rtype r \<noteq> TArray)}
             \<union> fst ` set (newObj_of parsed)"
    by (simp add: edit_keys_def set_Set_from set_editableKeys)
  have dist: "distinct (edit_keys nd parsed)"
    by (simp add: edit_keys_def distinct_Set_from)
  have obj: "(plain_object parsed \<longrightarrow> parsed = JObj (newObj_of parsed))
       \<and> (\<not> plain_object parsed \<longrightarrow> newObj_of parsed = [])"
    by (cases parsed) (simp_all add: newObj_of_def)
  have seq: "patched h nd parsed (jsonText s)
           = foldl (\<lambda>acc key. case acc of
                                 Inl e \<Rightarrow> Inl e
                               | Inr doc \<Rightarrow> patch h doc (path_of nd @ [Key key])
                                              (map_of (newObj_of parsed) key))
               (Inr (jsonText s)) (edit_keys nd parsed)"
  proof -
    have "patched h nd parsed (jsonText s)
        = patch_keys h (path_of nd) (newObj_of parsed) (jsonText s) (edit_keys nd parsed)"
      using assms(2) by (simp add: patched_def)
    also have "\<dots> = (case Inr (jsonText s) of Inl e \<Rightarrow> Inl e
        | Inr cur \<Rightarrow> patch_keys h (path_of nd) (newObj_of parsed) cur (edit_keys nd parsed))"
      by simp
    finally show ?thesis
      by (simp only: patch_keys_foldl)
  qed
  have present: "key \<in> fst ` set (newObj_of parsed) \<longrightarrow>
            (\<exists>v. map_of (newObj_of parsed) key = Some v \<and> (key, v) \<in> set (newObj_of parsed))"
    using map_of_present by fast
  have absent: "key \<notin> fst ` set (newObj_of parsed) \<longrightarrow> map_of (newObj_of parsed) key = None"
    by (simp add: map_of_eq_None_iff)
  have commit: "patched h nd parsed (jsonText s) = Inr doc' \<longrightarrow>
            jsonText (handleSave h (Some nd) txt s) = doc'
            \<and> jsonText (handleSave_inline h (Some nd) txt s) = doc'"
    using assms(1)
    by (simp add: handleSave_def handleSave_inline_def onClose_def reselect_def setJson_def
          setSelectedNode_def setContents_def Let_def split: option.splits)
  have example: "patched h \<lparr>ntext = [\<lparr>rkey = Some ''a'', rvalue = va, rtype = TNumber\<rparr>,
                               \<lparr>rkey = Some ''b'', rvalue = vb, rtype = TString\<rparr>],
                      npath = Some p\<rparr> (JObj [(''a'', JNum 1 0)]) cur
           = (case patch h cur (p @ [Key ''a'']) (Some (JNum 1 0)) of
                Inl e \<Rightarrow> Inl e
              | Inr doc \<Rightarrow> patch h doc (p @ [Key ''b'']) None)"
    by (simp add: patched_def isPrimitive_def edit_keys_def editableKeys_def truthy_key_def
          newObj_of_def Set_from_def path_of_def split: sum.splits)
  show ?thesis
    using keys dist obj seq present absent commit example whole isPrimitive_iff [of node]
    by blast
qed

lemma demo_parse_a1: \<open>h_parse demo_host ''{"a": 1}'' = Inr (JObj [(''a'', JNum 1 0)])\<close>
  by code_simp

theorem field_set_save_witness:
  \<open>\<not> isPrimitive demo_empty_key_node
   \<and> set (edit_keys demo_empty_key_node (JObj [(''a'', JNum 1 0)])) = {''a''}
   \<and> patched demo_host demo_empty_key_node (JObj [(''a'', JNum 1 0)]) ''doc'' = Inr ''doc +$["a"]''
   \<and> jsonText (handleSave demo_host (Some demo_empty_key_node) ''{"a": 1}'' demo_state)
       = ''doc +$["a"]''
   \<and> map_of (newObj_of (JObj [(''a'', JNum 1 0)])) ''a'' = Some (JNum 1 0)
   \<and> map_of (newObj_of (JObj [(''a'', JNum 1 0)])) ''b'' = None
   \<and> isPrimitive demo_single_empty_key
   \<and> patched demo_host demo_single_empty_key (JObj [(''a'', JNum 1 0)]) ''doc''
       = Inr ''doc +$["n"]''\<close>
proof -
  have prim: "\<not> isPrimitive demo_empty_key_node"
    by (simp add: isPrimitive_def demo_empty_key_node_def)
  note t3 = field_set_save
    [OF demo_parse_a1 prim, where node = demo_single_empty_key and cur = "''doc''"]
  have "\<exists>row. ntext demo_single_empty_key = [row] \<and> (rkey row = None \<or> rkey row = Some [])"
    by (simp add: demo_single_empty_key_def)
  with t3 have single: "isPrimitive demo_single_empty_key"
    by blast
  with t3 have "patched demo_host demo_single_empty_key (JObj [(''a'', JNum 1 0)]) ''doc''
      = patch demo_host ''doc'' (path_of demo_single_empty_key) (Some (JObj [(''a'', JNum 1 0)]))"
    by blast
  moreover have \<open>patch demo_host ''doc'' (path_of demo_single_empty_key)
      (Some (JObj [(''a'', JNum 1 0)])) = Inr ''doc +$["n"]''\<close>
    by code_simp
  ultimately have whole: \<open>patched demo_host demo_single_empty_key (JObj [(''a'', JNum 1 0)]) ''doc''
      = Inr ''doc +$["n"]''\<close>
    by (rule trans)
  have res: \<open>patched demo_host demo_empty_key_node (JObj [(''a'', JNum 1 0)]) (jsonText demo_state)
      = Inr ''doc +$["a"]''\<close>
    by code_simp
  have keys: "edit_keys demo_empty_key_node (JObj [(''a'', JNum 1 0)]) = [''a'']"
    by code_simp
  have present: "''a'' \<in> fst ` set (newObj_of (JObj [(''a'', JNum 1 0)]))"
    by (simp add: newObj_of_def)
  have absent: "''b'' \<notin> fst ` set (newObj_of (JObj [(''a'', JNum 1 0)]))"
    by (simp add: newObj_of_def)
  note t1 = field_set_save [OF demo_parse_a1 prim, of demo_state "''a''" \<open>''doc +$["a"]''\<close>]
  note t2 = field_set_save [OF demo_parse_a1 prim, of demo_state "''b''"]
  from t1 res have commit:
    \<open>jsonText (handleSave demo_host (Some demo_empty_key_node) ''{"a": 1}'' demo_state)
       = ''doc +$["a"]''\<close>
    by blast
  from t1 present have "\<exists>v. map_of (newObj_of (JObj [(''a'', JNum 1 0)])) ''a'' = Some v
      \<and> (''a'', v) \<in> set (newObj_of (JObj [(''a'', JNum 1 0)]))"
    by blast
  then have ma: "map_of (newObj_of (JObj [(''a'', JNum 1 0)])) ''a'' = Some (JNum 1 0)"
    by (simp add: newObj_of_def)
  from t2 absent have mb: "map_of (newObj_of (JObj [(''a'', JNum 1 0)])) ''b'' = None"
    by blast
  have state: "jsonText demo_state = ''doc''" by (simp add: demo_state_def)
  show ?thesis
    using prim res keys commit ma mb state single whole by simp
qed

text \<open>
  The claim as stated counts every row that has a key. The first row of this node has
  the empty string as its key and the type number, the edited object does not have that
  key, and yet no edit is made for it: the only key edited is \<^verbatim>\<open>a\<close>. And a node whose
  single row has the empty string as its key is not saved key by key at all: the one
  edit sets the parsed object at the node's path.
\<close>

theorem field_set_save_counterexample:
  \<open>rkey (hd (ntext demo_empty_key_node)) = Some ''''
   \<and> rtype (hd (ntext demo_empty_key_node)) = TNumber
   \<and> \<not> isPrimitive demo_empty_key_node
   \<and> JSON_parse ''{"a": 2}'' = Inr (JObj [(''a'', JNum 2 0)])
   \<and> edit_keys demo_empty_key_node (JObj [(''a'', JNum 2 0)]) = [''a'']
   \<and> patched demo_host demo_empty_key_node (JObj [(''a'', JNum 2 0)]) ''doc'' = Inr ''doc +$["a"]''
   \<and> rkey (hd (ntext demo_single_empty_key)) = Some ''''
   \<and> patched demo_host demo_single_empty_key (JObj [(''a'', JNum 2 0)]) ''doc'' = Inr ''doc +$["n"]''\<close>
proof -
  have "rkey (hd (ntext demo_empty_key_node)) = Some ''''
   \<and> rtype (hd (ntext demo_empty_key_node)) = TNumber
   \<and> \<not> isPrimitive demo_empty_key_node"
    by (simp add: demo_empty_key_node_def isPrimitive_def)
  moreover have \<open>JSON_parse ''{"a": 2}'' = Inr (JObj [(''a'', JNum 2 0)])\<close>
    by code_simp
  moreover have "edit_keys demo_empty_key_node (JObj [(''a'', JNum 2 0)]) = [''a'']"
    by code_simp
  moreover have \<open>patched demo_host demo_empty_key_node (JObj [(''a'', JNum 2 0)]) ''doc''
      = Inr ''doc +$["a"]''\<close>
    by code_simp
  moreover have "rkey (hd (ntext demo_single_empty_key)) = Some ''''"
    by (simp add: demo_single_empty_key_def)
  moreover have \<open>patched demo_host demo_single_empty_key (JObj [(''a'', JNum 2 0)]) ''doc''
      = Inr ''doc +$["n"]''\<close>
    by code_simp
  ultimately show ?thesis by blast
qed

section \<open>Agreement of the two save flows\<close>

lemma fallback_rows_agree:
  "fallback_rows prim parsed = rows_of_parsed parsed \<longleftrightarrow> (prim \<longleftrightarrow> \<not> plain_object parsed)"
proof (cases parsed)
  case (JObj kvs)
  have "[mk_row None (JObj kvs)] \<noteq> map (\<lambda>e. mk_row (Some (fst e)) (snd e)) kvs"
  proof
    assume "[mk_row None (JObj kvs)] = map (\<lambda>e. mk_row (Some (fst e)) (snd e)) kvs"
    then obtain e where "mk_row None (JObj kvs) = mk_row (Some (fst e)) (snd e)"
      by (cases kvs) auto
    then have "rkey (mk_row None (JObj kvs)) = rkey (mk_row (Some (fst e)) (snd e))"
      by simp
    then show False by (simp add: mk_row_def Let_def)
  qed
  then show ?thesis using JObj
    by (simp add: fallback_rows_def rows_of_parsed_def)
next
  case JNull
  then show ?thesis by (simp add: fallback_rows_def rows_of_parsed_def)
next
  case (JBool b)
  then show ?thesis by (simp add: fallback_rows_def rows_of_parsed_def)
next
  case (JNum m d)
  then show ?thesis by (simp add: fallback_rows_def rows_of_parsed_def)
next
  case (JStr str)
  have "map (\<lambda>e. mk_row (Some (fst e)) (snd e)) es \<noteq> [mk_row None (JStr str)]" for es
  proof
    assume "map (\<lambda>e. mk_row (Some (fst e)) (snd e)) es = [mk_row None (JStr str)]"
    then obtain e where "mk_row (Some (fst e)) (snd e) = mk_row None (JStr str)"
      by (cases es) auto
    then have "rkey (mk_row (Some (fst e)) (snd e)) = rkey (mk_row None (JStr str))"
      by simp
    then show False by (simp add: mk_row_def Let_def)
  qed
  then show ?thesis using JStr
    by (simp add: fallback_rows_def rows_of_parsed_def)
next
  case (JArr xs)
  have "map (\<lambda>e. mk_row (Some (fst e)) (snd e)) es \<noteq> [mk_row None (JArr xs)]" for es
  proof
    assume "map (\<lambda>e. mk_row (Some (fst e)) (snd e)) es = [mk_row None (JArr xs)]"
    then obtain e where "mk_row (Some (fst e)) (snd e) = mk_row None (JArr xs)"
      by (cases es) auto
    then have "rkey (mk_row (Some (fst e)) (snd e)) = rkey (mk_row None (JArr xs))"
      by simp
    then show False by (simp add: mk_row_def Let_def)
  qed
  then show ?thesis using JArr
    by (simp add: fallback_rows_def rows_of_parsed_def)
qed

lemma ntext_update_eq: "(nd\<lparr>ntext := r1\<rparr> = nd\<lparr>ntext := r2\<rparr>) \<longleftrightarrow> r1 = r2"
  by (cases nd) simp

text \<open>
  Claim C5, as amended. The two save flows always leave the same Document text, the
  same session error, the same node list and the same editor state. When the text does
  not parse or the node is absent they return the same state. When the patch commits,
  they select the same node, and the inline flow alone also writes the new text to the
  mirror. When the patch fails, both select a copy of the node, with the rows of the
  fallback: those of \<^verbatim>\<open>EditableNodeModal\<close> follow the shape of the node, those of the
  inline editor the shape of the parsed value. With a single-row node meaning a node
  that has exactly one row and that row's key is \<^verbatim>\<open>null\<close> or the empty string, the two
  row lists, and the two resulting states, are the same exactly when the node is a
  single-row node and the parsed value is not a plain object, or the node is not a
  single-row node and the parsed value is a plain object.
\<close>

theorem save_flows_agree:
  "jsonText (handleSave h nodeData txt s) = jsonText (handleSave_inline h nodeData txt s)
   \<and> error (handleSave h nodeData txt s) = error (handleSave_inline h nodeData txt s)
   \<and> opened (handleSave h nodeData txt s) = opened (handleSave_inline h nodeData txt s)
   \<and> nodes (handleSave h nodeData txt s) = nodes (handleSave_inline h nodeData txt s)
   \<and> (h_parse h txt = Inl msg \<longrightarrow>
        handleSave h nodeData txt s = handleSave_inline h nodeData txt s)
   \<and> handleSave h None txt s = handleSave_inline h None txt s
   \<and> (h_parse h txt = Inr parsed \<and> patched h nd parsed (jsonText s) = Inr doc' \<longrightarrow>
        selectedNode (handleSave h (Some nd) txt s)
          = selectedNode (handleSave_inline h (Some nd) txt s)
        \<and> handleSave_inline h (Some nd) txt s
          = (handleSave h (Some nd) txt s)\<lparr>contents := doc', hasChanges := False\<rparr>)
   \<and> (h_parse h txt = Inr parsed \<and> patched h nd parsed (jsonText s) = Inl err \<longrightarrow>
        selectedNode (handleSave h (Some nd) txt s)
          = Some (nd\<lparr>ntext := fallback_rows (isPrimitive nd) parsed\<rparr>)
        \<and> selectedNode (handleSave_inline h (Some nd) txt s)
          = Some (nd\<lparr>ntext := rows_of_parsed parsed\<rparr>)
        \<and> (handleSave h (Some nd) txt s = handleSave_inline h (Some nd) txt s
             \<longleftrightarrow> (isPrimitive nd \<longleftrightarrow> \<not> plain_object parsed))
        \<and> (fallback_rows (isPrimitive nd) parsed = rows_of_parsed parsed
             \<longleftrightarrow> (isPrimitive nd \<longleftrightarrow> \<not> plain_object parsed)))
   \<and> (isPrimitive nd
        \<longleftrightarrow> (\<exists>row. ntext nd = [row] \<and> (rkey row = None \<or> rkey row = Some [])))"
proof -
  have frame: "jsonText (handleSave h nodeData txt s) = jsonText (handleSave_inline h nodeData txt s)
   \<and> error (handleSave h nodeData txt s) = error (handleSave_inline h nodeData txt s)
   \<and> opened (handleSave h nodeData txt s) = opened (handleSave_inline h nodeData txt s)
   \<and> nodes (handleSave h nodeData txt s) = nodes (handleSave_inline h nodeData txt s)"
    by (simp add: handleSave_def handleSave_inline_def setError_def onClose_def reselect_def
          setJson_def setSelectedNode_def setContents_def Let_def
          split: sum.splits option.splits)
  have bad: "h_parse h txt = Inl msg \<longrightarrow>
        handleSave h nodeData txt s = handleSave_inline h nodeData txt s"
    by (simp add: handleSave_def handleSave_inline_def)
  have absent: "handleSave h None txt s = handleSave_inline h None txt s"
    by (simp add: handleSave_def handleSave_inline_def Let_def split: sum.splits)
  have commit: "h_parse h txt = Inr parsed \<and> patched h nd parsed (jsonText s) = Inr doc' \<longrightarrow>
        selectedNode (handleSave h (Some nd) txt s)
          = selectedNode (handleSave_inline h (Some nd) txt s)
        \<and> handleSave_inline h (Some nd) txt s
          = (handleSave h (Some nd) txt s)\<lparr>contents := doc', hasChanges := False\<rparr>"
    by (simp add: handleSave_def handleSave_inline_def onClose_def reselect_def
          setJson_def setSelectedNode_def setContents_def Let_def split: option.splits)
  have fallback: "h_parse h txt = Inr parsed \<and> patched h nd parsed (jsonText s) = Inl err \<longrightarrow>
        selectedNode (handleSave h (Some nd) txt s)
          = Some (nd\<lparr>ntext := fallback_rows (isPrimitive nd) parsed\<rparr>)
        \<and> selectedNode (handleSave_inline h (Some nd) txt s)
          = Some (nd\<lparr>ntext := rows_of_parsed parsed\<rparr>)
        \<and> (handleSave h (Some nd) txt s = handleSave_inline h (Some nd) txt s
             \<longleftrightarrow> (isPrimitive nd \<longleftrightarrow> \<not> plain_object parsed))"
  proof (intro impI, elim conjE)
    assume p: "h_parse h txt = Inr parsed" and f: "patched h nd parsed (jsonText s) = Inl err"
    have a: "handleSave h (Some nd) txt s
        = s\<lparr>selectedNode := Some (nd\<lparr>ntext := fallback_rows (isPrimitive nd) parsed\<rparr>),
            opened := False\<rparr>"
      using p f by (simp add: handleSave_def onClose_def setSelectedNode_def)
    have b: "handleSave_inline h (Some nd) txt s
        = s\<lparr>selectedNode := Some (nd\<lparr>ntext := rows_of_parsed parsed\<rparr>), opened := False\<rparr>"
      using p f by (simp add: handleSave_inline_def onClose_def setSelectedNode_def Let_def)
    have "(handleSave h (Some nd) txt s = handleSave_inline h (Some nd) txt s)
        \<longleftrightarrow> fallback_rows (isPrimitive nd) parsed = rows_of_parsed parsed"
    proof
      assume "handleSave h (Some nd) txt s = handleSave_inline h (Some nd) txt s"
      then have "selectedNode (handleSave h (Some nd) txt s)
          = selectedNode (handleSave_inline h (Some nd) txt s)" by simp
      then show "fallback_rows (isPrimitive nd) parsed = rows_of_parsed parsed"
        unfolding a b by (simp add: ntext_update_eq)
    next
      assume "fallback_rows (isPrimitive nd) parsed = rows_of_parsed parsed"
      then show "handleSave h (Some nd) txt s = handleSave_inline h (Some nd) txt s"
        unfolding a b by simp
    qed
    then show "selectedNode (handleSave h (Some nd) txt s)
          = Some (nd\<lparr>ntext := fallback_rows (isPrimitive nd) parsed\<rparr>)
        \<and> selectedNode (handleSave_inline h (Some nd) txt s)
          = Some (nd\<lparr>ntext := rows_of_parsed parsed\<rparr>)
        \<and> (handleSave h (Some nd) txt s = handleSave_inline h (Some nd) txt s
             \<longleftrightarrow> (isPrimitive nd \<longleftrightarrow> \<not> plain_object parsed))"
      unfolding fallback_rows_agree using a b by simp
  qed
  show ?thesis
    using frame bad absent commit fallback fallback_rows_agree [of "isPrimitive nd" parsed]
      isPrimitive_iff [of nd]
    by blast
qed


theorem save_flows_agree_witness:
  \<open>handleSave demo_host (Some demo_locked_leaf) ''{name: Ann}'' demo_state
     = handleSave_inline demo_host (Some demo_locked_leaf) ''{name: Ann}'' demo_state
   \<and> selectedNode (handleSave demo_host (Some demo_empty_key_node) ''{"a": 1}'' demo_state)
     = selectedNode (handleSave_inline demo_host (Some demo_empty_key_node) ''{"a": 1}'' demo_state)
   \<and> handleSave_inline demo_host (Some demo_empty_key_node) ''{"a": 1}'' demo_state
     = (handleSave demo_host (Some demo_empty_key_node) ''{"a": 1}'' demo_state)
         \<lparr>contents := ''doc +$["a"]'', hasChanges := False\<rparr>
   \<and> handleSave demo_host (Some demo_locked_leaf) ''5'' demo_state
     = handleSave_inline demo_host (Some demo_locked_leaf) ''5'' demo_state
   \<and> handleSave demo_host (Some demo_locked_leaf) ''{"a": 1}'' demo_state
     \<noteq> handleSave_inline demo_host (Some demo_locked_leaf) ''{"a": 1}'' demo_state
   \<and> isPrimitive demo_locked_empty_key
   \<and> handleSave demo_host (Some demo_locked_empty_key) ''{"a": 1}'' demo_state
     \<noteq> handleSave_inline demo_host (Some demo_locked_empty_key) ''{"a": 1}'' demo_state\<close>
proof -
  have fail2: "patched demo_host demo_locked_empty_key (JObj [(''a'', JNum 1 0)]) (jsonText demo_state)
      = Inl ''Can not resolve path''"
    by code_simp
  note keyed = save_flows_agree
    [of demo_host _ \<open>''{"a": 1}''\<close> demo_state _ "JObj [(''a'', JNum 1 0)]" demo_locked_empty_key _
        "''Can not resolve path''"]
  have "\<exists>row. ntext demo_locked_empty_key = [row] \<and> (rkey row = None \<or> rkey row = Some [])"
    by (simp add: demo_locked_empty_key_def)
  with keyed have single: "isPrimitive demo_locked_empty_key"
    by blast
  from keyed demo_parse_a1 fail2 have
    \<open>handleSave demo_host (Some demo_locked_empty_key) ''{"a": 1}'' demo_state
       = handleSave_inline demo_host (Some demo_locked_empty_key) ''{"a": 1}'' demo_state
     \<longleftrightarrow> (isPrimitive demo_locked_empty_key \<longleftrightarrow> \<not> plain_object (JObj [(''a'', JNum 1 0)]))\<close>
    by blast
  then have c5: \<open>handleSave demo_host (Some demo_locked_empty_key) ''{"a": 1}'' demo_state
       \<noteq> handleSave_inline demo_host (Some demo_locked_empty_key) ''{"a": 1}'' demo_state\<close>
    using single by simp
  have commit: \<open>patched demo_host demo_empty_key_node (JObj [(''a'', JNum 1 0)]) (jsonText demo_state)
      = Inr ''doc +$["a"]''\<close>
    by code_simp
  have fail5: "patched demo_host demo_locked_leaf (JNum 5 0) (jsonText demo_state)
      = Inl ''Can not resolve path''"
    by code_simp
  have fail1: "patched demo_host demo_locked_leaf (JObj [(''a'', JNum 1 0)]) (jsonText demo_state)
      = Inl ''Can not resolve path''"
    by code_simp
  have leaf: "isPrimitive demo_locked_leaf"
    by (simp add: isPrimitive_def demo_locked_leaf_def truthy_key_def)
  note bad = save_flows_agree
    [of demo_host "Some demo_locked_leaf" "''{name: Ann}''" demo_state "''SyntaxError''"]
  note ok = save_flows_agree
    [of demo_host _ \<open>''{"a": 1}''\<close> demo_state _ "JObj [(''a'', JNum 1 0)]" demo_empty_key_node
        \<open>''doc +$["a"]''\<close>]
  note same = save_flows_agree
    [of demo_host _ "''5''" demo_state _ "JNum 5 0" demo_locked_leaf _ "''Can not resolve path''"]
  note differ = save_flows_agree
    [of demo_host _ \<open>''{"a": 1}''\<close> demo_state _ "JObj [(''a'', JNum 1 0)]" demo_locked_leaf _
        "''Can not resolve path''"]
  from bad demo_parse_invalid have c1:
    "handleSave demo_host (Some demo_locked_leaf) ''{name: Ann}'' demo_state
     = handleSave_inline demo_host (Some demo_locked_leaf) ''{name: Ann}'' demo_state"
    by blast
  from ok demo_parse_a1 commit have c2:
    \<open>selectedNode (handleSave demo_host (Some demo_empty_key_node) ''{"a": 1}'' demo_state)
     = selectedNode (handleSave_inline demo_host (Some demo_empty_key_node) ''{"a": 1}'' demo_state)
   \<and> handleSave_inline demo_host (Some demo_empty_key_node) ''{"a": 1}'' demo_state
     = (handleSave demo_host (Some demo_empty_key_node) ''{"a": 1}'' demo_state)
         \<lparr>contents := ''doc +$["a"]'', hasChanges := False\<rparr>\<close>
    by blast
  from same demo_parse_five fail5 have
    "handleSave demo_host (Some demo_locked_leaf) ''5'' demo_state
       = handleSave_inline demo_host (Some demo_locked_leaf) ''5'' demo_state
     \<longleftrightarrow> (isPrimitive demo_locked_leaf \<longleftrightarrow> \<not> plain_object (JNum 5 0))"
    by blast
  then have c3: "handleSave demo_host (Some demo_locked_leaf) ''5'' demo_state
       = handleSave_inline demo_host (Some demo_locked_leaf) ''5'' demo_state"
    using leaf by simp
  from differ demo_parse_a1 fail1 have
    \<open>handleSave demo_host (Some demo_locked_leaf) ''{"a": 1}'' demo_state
       = handleSave_inline demo_host (Some demo_locked_leaf) ''{"a": 1}'' demo_state
     \<longleftrightarrow> (isPrimitive demo_locked_leaf \<longleftrightarrow> \<not> plain_object (JObj [(''a'', JNum 1 0)]))\<close>
    by blast
  then have c4: \<open>handleSave demo_host (Some demo_locked_leaf) ''{"a": 1}'' demo_state
       \<noteq> handleSave_inline demo_host (Some demo_locked_leaf) ''{"a": 1}'' demo_state\<close>
    using leaf by simp
  show ?thesis using c1 c2 c3 c4 c5 single by blast
qed

text \<open>
  The claim as stated fails on the fallback. The node is a leaf, the text is the
  object \<^verbatim>\<open>{"a": 1}\<close>, and the patcher refuses the node's path: \<^verbatim>\<open>EditableNodeModal\<close>
  selects the node with one keyless row of type object, the inline editor selects it
  with the row of the key \<^verbatim>\<open>a\<close>.
\<close>

theorem save_flows_agree_counterexample:
  \<open>selectedNode (handleSave demo_host (Some demo_locked_leaf) ''{"a": 1}'' demo_state)
     = Some \<lparr>ntext = [\<lparr>rkey = None, rvalue = PNull, rtype = TObject\<rparr>],
             npath = Some [Key ''locked'']\<rparr>
   \<and> selectedNode (handleSave_inline demo_host (Some demo_locked_leaf) ''{"a": 1}'' demo_state)
     = Some \<lparr>ntext = [\<lparr>rkey = Some ''a'', rvalue = PNum 1 0, rtype = TNumber\<rparr>],
             npath = Some [Key ''locked'']\<rparr>
   \<and> selectedNode (handleSave demo_host (Some demo_locked_leaf) ''{"a": 1}'' demo_state)
     \<noteq> selectedNode (handleSave_inline demo_host (Some demo_locked_leaf) ''{"a": 1}'' demo_state)
   \<and> jsonText (handleSave demo_host (Some demo_locked_leaf) ''{"a": 1}'' demo_state) = ''doc''\<close>
proof -
  have a: \<open>selectedNode (handleSave demo_host (Some demo_locked_leaf) ''{"a": 1}'' demo_state)
     = Some \<lparr>ntext = [\<lparr>rkey = None, rvalue = PNull, rtype = TObject\<rparr>],
             npath = Some [Key ''locked'']\<rparr>\<close>
    by code_simp
  have b: \<open>selectedNode (handleSave_inline demo_host (Some demo_locked_leaf) ''{"a": 1}'' demo_state)
     = Some \<lparr>ntext = [\<lparr>rkey = Some ''a'', rvalue = PNum 1 0, rtype = TNumber\<rparr>],
             npath = Some [Key ''locked'']\<rparr>\<close>
    by code_simp
  have c: \<open>jsonText (handleSave demo_host (Some demo_locked_leaf) ''{"a": 1}'' demo_state) = ''doc''\<close>
    by code_simp
  show ?thesis using c unfolding a b by simp
qed

section \<open>The reference parser on numbers\<close>

lemma digit_cases:
  "d < 10 \<Longrightarrow> d = 0 \<or> d = 1 \<or> d = 2 \<or> d = 3 \<or> d = 4 \<or> d = 5 \<or> d = 6 \<or> d = 7 \<or> d = 8 \<or> d = (9::nat)"
  by arith

lemma digit_char_props:
  assumes "d < 10"
  shows "is_digit (digit_char d)" and "digit_val (digit_char d) = d"
    and "digit_char d = CHR ''0'' \<longleftrightarrow> d = 0"
  using digit_cases [OF assms]
  by (auto simp: digit_char_def is_digit_def digit_val_def)

lemma is_digit_not_special:
  assumes "is_digit c"
  shows "\<not> is_ws c" and "c \<noteq> CHR ''-''" and "c \<noteq> CHR ''+''" and "c \<noteq> CHR ''.''"
    and "c \<noteq> CHR ''e''" and "c \<noteq> CHR ''E''" and "c \<noteq> CHR '',''" and "c \<noteq> CHR '']''"
    and "c \<noteq> CHR ''{''" and "c \<noteq> CHR ''[''" and "c \<noteq> CHR 0x22"
    and "c \<noteq> CHR ''t''" and "c \<noteq> CHR ''f''" and "c \<noteq> CHR ''n''"
  using assms by (auto simp: is_digit_def is_ws_def)

lemma string_of_nat_digits: "list_all is_digit (string_of_nat n)"
proof (induction n rule: string_of_nat.induct)
  case (1 n)
  show ?case
  proof (cases "n < 10")
    case True
    then show ?thesis by (subst string_of_nat.simps) (simp add: digit_char_props)
  next
    case False
    then show ?thesis using "1.IH" by (subst string_of_nat.simps) (simp add: digit_char_props)
  qed
qed

lemma nat_of_string_snoc: "nat_of_string (s @ [c]) = 10 * nat_of_string s + digit_val c"
  by (simp add: nat_of_string_def)

lemma nat_of_string_of_nat: "nat_of_string (string_of_nat n) = n"
proof (induction n rule: string_of_nat.induct)
  case (1 n)
  show ?case
  proof (cases "n < 10")
    case True
    then show ?thesis
      by (subst string_of_nat.simps) (simp add: nat_of_string_def digit_char_props)
  next
    case False
    then show ?thesis using "1.IH"
      by (subst string_of_nat.simps) (simp add: nat_of_string_snoc digit_char_props)
  qed
qed

lemma hd_string_of_nat: "0 < n \<Longrightarrow> hd (string_of_nat n) \<noteq> CHR ''0''"
proof (induction n rule: string_of_nat.induct)
  case (1 n)
  show ?case
  proof (cases "n < 10")
    case True
    then show ?thesis using "1.prems"
      by (subst string_of_nat.simps) (simp add: digit_char_props)
  next
    case False
    then have "0 < n div 10" by simp
    then have "hd (string_of_nat (n div 10)) \<noteq> CHR ''0''" using "1.IH" False by simp
    then show ?thesis using False
      by (subst string_of_nat.simps) (simp add: string_of_nat_not_Nil)
  qed
qed

lemma string_of_nat_zero: "string_of_nat 0 = ''0''"
  by (simp add: string_of_nat.simps digit_char_def)

lemma string_of_nat_canonical:
  "string_of_nat n = ''0'' \<or> (string_of_nat n \<noteq> [] \<and> hd (string_of_nat n) \<noteq> CHR ''0'')"
  using hd_string_of_nat [of n] string_of_nat_zero string_of_nat_not_Nil [of n]
  by (cases "n = 0") auto

text \<open>Reading a run of digits up to a character that is not a digit.\<close>

lemma digits_then_stop:
  assumes "list_all is_digit ds" and "x = [] \<or> \<not> is_digit (hd x)"
  shows "takeWhile is_digit (ds @ x) = ds" and "dropWhile is_digit (ds @ x) = x"
proof -
  have tx: "takeWhile is_digit x = []" and dx: "dropWhile is_digit x = x"
    using assms(2) by (cases x; simp)+
  have all: "\<And>c. c \<in> set ds \<Longrightarrow> is_digit c"
    using assms(1) by (simp add: list_all_iff)
  show "takeWhile is_digit (ds @ x) = ds"
    using all by (simp add: takeWhile_append2 tx)
  show "dropWhile is_digit (ds @ x) = x"
    using all by (simp add: dropWhile_append2 dx)
qed

lemma parse_fraction_none:
  "x = [] \<or> hd x \<noteq> CHR ''.'' \<Longrightarrow> parse_fraction x = Some ([], x)"
  by (cases x) (auto simp: parse_fraction_def)

lemma parse_fraction_digits:
  assumes "list_all is_digit fp" and "fp \<noteq> []" and "x = [] \<or> \<not> is_digit (hd x)"
  shows "parse_fraction (CHR ''.'' # fp @ x) = Some (fp, x)"
  using assms(2) digits_then_stop [OF assms(1,3)]
  by (simp add: parse_fraction_def)

lemma parse_exponent_none:
  "x = [] \<or> (hd x \<noteq> CHR ''e'' \<and> hd x \<noteq> CHR ''E'') \<Longrightarrow> parse_exponent x = Some (0, x)"
  by (cases x) (auto simp: parse_exponent_def)

lemma parse_exponent_digits:
  assumes "list_all is_digit ed" and "ed \<noteq> []" and "x = [] \<or> \<not> is_digit (hd x)"
  shows "parse_exponent (CHR ''e'' # CHR ''+'' # ed @ x) = Some (int (nat_of_string ed), x)"
    and "parse_exponent (CHR ''e'' # CHR ''-'' # ed @ x) = Some (- int (nat_of_string ed), x)"
  using assms(2) digits_then_stop [OF assms(1,3)]
  by (simp_all add: parse_exponent_def)

text \<open>
  The number parser on an integer part, followed by whatever the fraction and the
  exponent parsers accept.
\<close>

lemma parse_number_parts:
  assumes ip: "list_all is_digit ip" "ip = ''0'' \<or> (ip \<noteq> [] \<and> hd ip \<noteq> CHR ''0'')"
    and r1: "r1 = [] \<or> \<not> is_digit (hd r1)"
    and fr: "parse_fraction r1 = Some (fp, r2)"
    and ex: "parse_exponent r2 = Some (e, r3)"
  shows "parse_number (ip @ r1)
           = (case norm_dec (int (nat_of_string (ip @ fp)) * 10 ^ nat (e - int (length fp)))
                     (nat (- (e - int (length fp)))) of
                (m, d) \<Rightarrow> Some (JNum m d, r3))"
    and "parse_number (CHR ''-'' # ip @ r1)
           = (case norm_dec (- int (nat_of_string (ip @ fp)) * 10 ^ nat (e - int (length fp)))
                     (nat (- (e - int (length fp)))) of
                (m, d) \<Rightarrow> Some (JNum m d, r3))"
proof -
  have ne: "ip \<noteq> []" using ip(2) by auto
  have dig: "is_digit (hd ip)" using ip(1) ne by (cases ip) simp_all
  have nm: "hd ip \<noteq> CHR ''-''" using dig by (rule is_digit_not_special)
  have part: "(if hd (ip @ r1) = CHR ''0'' then ''0'' else takeWhile is_digit (ip @ r1)) = ip"
  proof (cases "hd ip = CHR ''0''")
    case True
    then have "ip = ''0''" using ip(2) by auto
    then show ?thesis by simp
  next
    case False
    then show ?thesis using ne digits_then_stop(1) [OF ip(1) r1] by simp
  qed
  have hd_app: "hd (ip @ r1) = hd ip" using ne by simp
  have both: "parse_number (ip @ r1)
           = (case norm_dec (int (nat_of_string (ip @ fp)) * 10 ^ nat (e - int (length fp)))
                     (nat (- (e - int (length fp)))) of
                (m, d) \<Rightarrow> Some (JNum m d, r3))
      \<and> parse_number (CHR ''-'' # ip @ r1)
           = (case norm_dec (- int (nat_of_string (ip @ fp)) * 10 ^ nat (e - int (length fp)))
                     (nat (- (e - int (length fp)))) of
                (m, d) \<Rightarrow> Some (JNum m d, r3))"
  proof (cases "hd ip = CHR ''0''")
    case True
    then have z: "ip = ''0''" using ip(2) by auto
    show ?thesis
      using fr ex unfolding z
      by (simp add: parse_number_def Let_def is_digit_def)
  next
    case False
    have tw: "takeWhile is_digit (ip @ r1) = ip"
      using digits_then_stop(1) [OF ip(1) r1] .
    show ?thesis
      using ne dig nm False fr ex hd_app
      by (simp add: parse_number_def Let_def tw del: takeWhile_append)
  qed
  from both show "parse_number (ip @ r1)
           = (case norm_dec (int (nat_of_string (ip @ fp)) * 10 ^ nat (e - int (length fp)))
                     (nat (- (e - int (length fp)))) of
                (m, d) \<Rightarrow> Some (JNum m d, r3))"
    by (rule conjunct1)
  from both show "parse_number (CHR ''-'' # ip @ r1)
           = (case norm_dec (- int (nat_of_string (ip @ fp)) * 10 ^ nat (e - int (length fp)))
                     (nat (- (e - int (length fp)))) of
                (m, d) \<Rightarrow> Some (JNum m d, r3))"
    by (rule conjunct2)
qed

lemma nat_of_string_zeros_right:
  "nat_of_string (s @ replicate z CHR ''0'') = nat_of_string s * 10 ^ z"
proof (induction z)
  case 0
  then show ?case by simp
next
  case (Suc z)
  have "s @ replicate (Suc z) CHR ''0'' = (s @ replicate z CHR ''0'') @ [CHR ''0'']"
    by (simp add: replicate_append_same)
  then show ?case using Suc by (simp only: nat_of_string_snoc) (simp add: digit_val_def)
qed

lemma nat_of_string_zeros_left:
  "nat_of_string (replicate z CHR ''0'' @ s) = nat_of_string s"
proof -
  have "foldl (\<lambda>a c. 10 * a + digit_val c) 0 (replicate z CHR ''0'') = 0"
    by (induction z) (simp_all add: digit_val_def)
  then show ?thesis by (simp add: nat_of_string_def)
qed

lemma nat_of_string_zero_left: "nat_of_string (CHR ''0'' # s) = nat_of_string s"
  using nat_of_string_zeros_left [of 1 s] by simp

lemma norm_dec_canonical: "d = 0 \<or> m mod 10 \<noteq> 0 \<Longrightarrow> norm_dec m d = (m, d)"
  by (cases d) auto

lemma last_string_of_nat: "last (string_of_nat n) = digit_char (n mod 10)"
  by (subst string_of_nat.simps) simp

lemma strip_zeros_id:
  assumes "n mod 10 \<noteq> 0"
  shows "strip_zeros (string_of_nat n) = string_of_nat n"
proof -
  have "last (string_of_nat n) \<noteq> CHR ''0''"
    using assms by (simp add: last_string_of_nat digit_char_props)
  then have "hd (rev (string_of_nat n)) \<noteq> CHR ''0''"
    using string_of_nat_not_Nil [of n] by (simp add: hd_rev)
  then have "dropWhile (\<lambda>c. c = CHR ''0'') (rev (string_of_nat n)) = rev (string_of_nat n)"
    using string_of_nat_not_Nil [of n] by (cases "rev (string_of_nat n)") simp_all
  then show ?thesis by (simp add: strip_zeros_def)
qed

lemma strip_zeros_props:
  assumes "s \<noteq> []" and "hd s \<noteq> CHR ''0''" and "list_all is_digit s"
  shows "strip_zeros s \<noteq> []" and "hd (strip_zeros s) = hd s"
    and "list_all is_digit (strip_zeros s)"
proof -
  let ?P = "\<lambda>c. c = CHR ''0''"
  have lr: "last (rev s) = hd s" using assms(1) by (simp add: last_rev)
  have keep: "xs \<noteq> [] \<Longrightarrow> \<not> ?P (last xs)
      \<Longrightarrow> dropWhile ?P xs \<noteq> [] \<and> last (dropWhile ?P xs) = last xs" for xs :: string
  proof (induction xs)
    case Nil
    then show ?case by simp
  next
    case (Cons x xs)
    show ?case
    proof (cases "xs = []")
      case True
      then show ?thesis using Cons.prems by simp
    next
      case False
      then show ?thesis using Cons by simp
    qed
  qed
  have d: "dropWhile ?P (rev s) \<noteq> [] \<and> last (dropWhile ?P (rev s)) = hd s"
    using keep [of "rev s"] assms(1,2) unfolding lr by simp
  show "strip_zeros s \<noteq> []" using d by (simp add: strip_zeros_def)
  show "hd (strip_zeros s) = hd s"
    unfolding strip_zeros_def using d by (simp only: hd_rev)
  have "set (strip_zeros s) \<subseteq> set s"
    by (auto simp: strip_zeros_def dest: set_dropWhileD)
  then show "list_all is_digit (strip_zeros s)"
    using assms(3) by (auto simp: list_all_iff)
qed

lemma parse_exponent_es:
  assumes "rest = [] \<or> \<not> is_digit (hd rest)"
  shows "parse_exponent (''e'' @ (if e < 0 then ''-'' else ''+'') @ string_of_nat (nat \<bar>e\<bar>) @ rest)
           = Some (e, rest)"
  using parse_exponent_digits [OF string_of_nat_digits string_of_nat_not_Nil assms, of "nat \<bar>e\<bar>"]
  by (auto simp: nat_of_string_of_nat)

lemma parse_number_exponent_form:
  assumes s: "s \<noteq> []" "hd s \<noteq> CHR ''0''" "list_all is_digit s"
    and rest: "rest = [] \<or> \<not> is_digit (hd rest)"
    and es: "es = (if e < 0 then ''-'' else ''+'') @ string_of_nat (nat \<bar>e\<bar>)"
    and body: "body = (if int (length s) = 1 then s @ ''e'' @ es else [hd s] @ ''.'' @ tl s @ ''e'' @ es)"
  shows "parse_number (body @ rest)
           = (case norm_dec (int (nat_of_string s) * 10 ^ nat (e - int (length s - 1)))
                     (nat (- (e - int (length s - 1)))) of
                (m, d) \<Rightarrow> Some (JNum m d, rest))"
    and "parse_number (CHR ''-'' # body @ rest)
           = (case norm_dec (- int (nat_of_string s) * 10 ^ nat (e - int (length s - 1)))
                     (nat (- (e - int (length s - 1)))) of
                (m, d) \<Rightarrow> Some (JNum m d, rest))"
proof -
  obtain c t where ct: "s = c # t" using s(1) by (cases s) auto
  have c: "is_digit c" "c \<noteq> CHR ''0''" and t: "list_all is_digit t"
    using s ct by simp_all
  have ip: "list_all is_digit [c]" "[c] = ''0'' \<or> ([c] \<noteq> [] \<and> hd [c] \<noteq> CHR ''0'')"
    using c by simp_all
  let ?tail = "''e'' @ es @ rest"
  have ex: "parse_exponent ?tail = Some (e, rest)"
    unfolding es using parse_exponent_es [OF rest, of e] by simp
  have stop_e: "?tail = [] \<or> \<not> is_digit (hd ?tail)"
    by (simp add: is_digit_def)
  show "parse_number (body @ rest)
           = (case norm_dec (int (nat_of_string s) * 10 ^ nat (e - int (length s - 1)))
                     (nat (- (e - int (length s - 1)))) of
                (m, d) \<Rightarrow> Some (JNum m d, rest))"
  proof (cases "t = []")
    case True
    have fr: "parse_fraction ?tail = Some ([], ?tail)"
      by (rule parse_fraction_none) simp
    have "body @ rest = [c] @ ?tail" using True ct body by simp
    then show ?thesis
      using parse_number_parts(1) [OF ip stop_e fr ex] True ct by simp
  next
    case False
    let ?r1 = "CHR ''.'' # t @ ?tail"
    have fr: "parse_fraction ?r1 = Some (t, ?tail)"
      using parse_fraction_digits [OF t False stop_e] .
    have stop1: "?r1 = [] \<or> \<not> is_digit (hd ?r1)"
      by (simp add: is_digit_def)
    have "body @ rest = [c] @ ?r1" using False ct body by simp
    then show ?thesis
      using parse_number_parts(1) [OF ip stop1 fr ex] ct by simp
  qed
  show "parse_number (CHR ''-'' # body @ rest)
           = (case norm_dec (- int (nat_of_string s) * 10 ^ nat (e - int (length s - 1)))
                     (nat (- (e - int (length s - 1)))) of
                (m, d) \<Rightarrow> Some (JNum m d, rest))"
  proof (cases "t = []")
    case True
    have fr: "parse_fraction ?tail = Some ([], ?tail)"
      by (rule parse_fraction_none) simp
    have "body @ rest = [c] @ ?tail" using True ct body by simp
    then show ?thesis
      using parse_number_parts(2) [OF ip stop_e fr ex] True ct by simp
  next
    case False
    let ?r1 = "CHR ''.'' # t @ ?tail"
    have fr: "parse_fraction ?r1 = Some (t, ?tail)"
      using parse_fraction_digits [OF t False stop_e] .
    have stop1: "?r1 = [] \<or> \<not> is_digit (hd ?r1)"
      by (simp add: is_digit_def)
    have "body @ rest = [c] @ ?r1" using False ct body by simp
    then show ?thesis
      using parse_number_parts(2) [OF ip stop1 fr ex] ct by simp
  qed
qed

lemma canonical_mod:
  assumes "d = 0 \<or> (a::nat) mod 10 \<noteq> 0"
  shows "d = (0::nat) \<or> int a mod 10 \<noteq> 0" and "d = 0 \<or> (- int a) mod 10 \<noteq> 0"
proof -
  have iff: "(10::int) dvd int a \<longleftrightarrow> 10 dvd a"
    using int_dvd_int_iff [of 10 a] by simp
  have pos: "int a mod 10 = 0 \<longleftrightarrow> a mod 10 = 0"
    by (simp only: mod_eq_0_iff_dvd iff)
  have neg: "(- int a) mod 10 = 0 \<longleftrightarrow> a mod 10 = 0"
    by (simp only: mod_eq_0_iff_dvd dvd_minus_iff iff)
  show "d = 0 \<or> int a mod 10 \<noteq> 0" using assms by (simp only: pos)
  show "d = 0 \<or> (- int a) mod 10 \<noteq> 0" using assms by (simp only: neg)
qed

text \<open>The reference parser reads back what \<^verbatim>\<open>Number::toString\<close> writes.\<close>

lemma parse_number_pos_toString:
  assumes a: "0 < a" and canon: "d = 0 \<or> a mod 10 \<noteq> 0"
    and stop: "rest = [] \<or> (\<not> is_digit (hd rest) \<and> hd rest \<noteq> CHR ''.''
                 \<and> hd rest \<noteq> CHR ''e'' \<and> hd rest \<noteq> CHR ''E'')"
  shows "parse_number (pos_toString a d @ rest) = Some (JNum (int a) d, rest)
       \<and> parse_number (CHR ''-'' # pos_toString a d @ rest) = Some (JNum (- int a) d, rest)"
proof -
  define s0 where "s0 = string_of_nat a"
  define s where "s = strip_zeros s0"
  define L where "L = length s0"
  define k where "k = length s"
  have s0: "s0 \<noteq> []" "hd s0 \<noteq> CHR ''0''" "list_all is_digit s0"
    using a by (simp_all add: s0_def string_of_nat_not_Nil hd_string_of_nat string_of_nat_digits)
  have s: "s \<noteq> []" "hd s \<noteq> CHR ''0''" "list_all is_digit s"
    using strip_zeros_props [OF s0] s0(2) by (simp_all add: s_def)
  have kL: "k \<le> L" and k0: "0 < k" and L0: "0 < L"
    using s(1) s0(1) length_strip_zeros_le [of s0] by (simp_all add: k_def L_def s_def)
  have pad: "s @ replicate (L - k) CHR ''0'' = s0"
    using strip_zeros_pad [of s0] by (simp add: s_def L_def k_def)
  have val0: "nat_of_string s0 = a" by (simp add: s0_def nat_of_string_of_nat)
  have val: "nat_of_string s * 10 ^ (L - k) = a"
    using nat_of_string_zeros_right [of s "L - k"] pad val0 by simp
  have nd: "norm_dec (int a) d = (int a, d)" "norm_dec (- int a) d = (- int a, d)"
    using canonical_mod [OF canon] by (simp_all add: norm_dec_canonical)
  have stop1: "rest = [] \<or> \<not> is_digit (hd rest)" using stop by auto
  have unfold: "pos_toString a d =
     (if int k \<le> int L - int d \<and> int L - int d \<le> 21
      then s @ replicate (nat (int L - int d - int k)) CHR ''0''
      else if 0 < int L - int d \<and> int L - int d \<le> 21
      then take (nat (int L - int d)) s @ ''.'' @ drop (nat (int L - int d)) s
      else if - 6 < int L - int d \<and> int L - int d \<le> 0
      then ''0.'' @ replicate (nat (- (int L - int d))) CHR ''0'' @ s
      else if int k = 1
      then s @ ''e'' @ (if int L - int d - 1 < 0 then ''-'' else ''+'')
             @ string_of_nat (nat \<bar>int L - int d - 1\<bar>)
      else [hd s] @ ''.'' @ tl s @ ''e'' @ (if int L - int d - 1 < 0 then ''-'' else ''+'')
             @ string_of_nat (nat \<bar>int L - int d - 1\<bar>))"
    by (simp add: pos_toString_def Let_def s0_def s_def L_def k_def)
  show ?thesis
  proof (cases "d = 0")
    case True
    show ?thesis
    proof (cases "L \<le> 21")
      case small: True
      have c0: "int k \<le> int L - int d \<and> int L - int d \<le> 21"
        using True small kL by simp
      have n0: "nat (int L - int d - int k) = L - k"
        using True kL by simp
      have out: "pos_toString a d = s0"
        by (simp only: unfold c0 n0 simp_thms if_True pad)
      have fr: "parse_fraction rest = Some ([], rest)"
        using stop by (auto intro: parse_fraction_none)
      have ex: "parse_exponent rest = Some (0, rest)"
        using stop by (auto intro: parse_exponent_none)
      have ip: "s0 = ''0'' \<or> (s0 \<noteq> [] \<and> hd s0 \<noteq> CHR ''0'')" using s0 by simp
      show ?thesis
        unfolding out
        using parse_number_parts [OF s0(3) ip stop1 fr ex] True nd val0
        by simp
    next
      case big: False
      let ?e = "int L - int d - 1"
      let ?es = "(if ?e < 0 then ''-'' else ''+'') @ string_of_nat (nat \<bar>?e\<bar>)"
      let ?body = "(if int k = 1 then s @ ''e'' @ ?es else [hd s] @ ''.'' @ tl s @ ''e'' @ ?es)"
      have c1: "\<not> int L - int d \<le> 21" and c3: "\<not> int L - int d \<le> 0"
        using True big by simp_all
      have out: "pos_toString a d = ?body"
        by (simp only: unfold c1 c3 simp_thms if_False)
      have body: "?body = (if int (length s) = 1 then s @ ''e'' @ ?es else [hd s] @ ''.'' @ tl s @ ''e'' @ ?es)"
        by (simp add: k_def)
      note pf = parse_number_exponent_form [OF s stop1 refl body]
      have e10: "?e - int (length s - 1) = int (L - k)"
        using True kL k0 by (simp add: k_def [symmetric] of_nat_diff)
      have "int (nat_of_string s * 10 ^ (L - k)) = int a"
        using val by simp
      then have v: "int (nat_of_string s) * 10 ^ (L - k) = int a"
        by simp
      show ?thesis
        using pf True nd v unfolding out e10 by simp
    qed
  next
    case False
    then have am: "a mod 10 \<noteq> 0" using canon by simp
    have ss0: "s = s0" by (simp add: s_def s0_def strip_zeros_id [OF am])
    have kLeq: "k = L" by (simp add: k_def L_def ss0)
    show ?thesis
    proof (cases "d < L \<and> L - d \<le> 21")
      case frac: True
      let ?n = "L - d"
      have c1: "\<not> int k \<le> int L - int d"
        using False kLeq by simp
      have c2: "0 < int L - int d \<and> int L - int d \<le> 21"
        using frac by linarith
      have n1: "nat (int L - int d) = L - d"
        by simp
      have out: "pos_toString a d = take ?n s0 @ ''.'' @ drop ?n s0"
        by (simp only: unfold c1 c2 n1 simp_thms if_True if_False ss0)
      have n0: "0 < ?n" "?n < L" using frac False by simp_all
      have ipd: "list_all is_digit (take ?n s0)"
        using s0(3) by (auto simp: list_all_iff dest: in_set_takeD)
      have ipc: "take ?n s0 = ''0'' \<or> (take ?n s0 \<noteq> [] \<and> hd (take ?n s0) \<noteq> CHR ''0'')"
        using s0 n0 by (simp add: hd_take L_def)
      have fpd: "list_all is_digit (drop ?n s0)"
        using s0(3) by (auto simp: list_all_iff dest: in_set_dropD)
      have fpn: "drop ?n s0 \<noteq> []" using n0 by (simp add: L_def)
      have fr: "parse_fraction (CHR ''.'' # drop ?n s0 @ rest) = Some (drop ?n s0, rest)"
        using parse_fraction_digits [OF fpd fpn stop1] .
      have ex: "parse_exponent rest = Some (0, rest)"
        using stop by (auto intro: parse_exponent_none)
      have st: "CHR ''.'' # drop ?n s0 @ rest = [] \<or> \<not> is_digit (hd (CHR ''.'' # drop ?n s0 @ rest))"
        by (simp add: is_digit_def)
      have len: "length s0 - (L - d) = d" using n0 frac by (simp add: L_def)
      show ?thesis
        unfolding out
        using parse_number_parts [OF ipd ipc st fr ex] nd val0
        by (simp add: len)
    next
      case nofrac: False
      show ?thesis
      proof (cases "L \<le> d \<and> d - L < 6")
        case lead: True
        let ?z = "d - L"
        have c1: "\<not> int k \<le> int L - int d"
          using False kLeq by simp
        have c2: "\<not> 0 < int L - int d"
          using lead by simp
        have c3: "- 6 < int L - int d \<and> int L - int d \<le> 0"
          using lead by linarith
        have n2: "nat (- (int L - int d)) = d - L"
          by simp
        have out: "pos_toString a d = ''0.'' @ replicate ?z CHR ''0'' @ s0"
          by (simp only: unfold c1 c2 c3 n2 simp_thms if_True if_False ss0)
        let ?fp = "replicate ?z CHR ''0'' @ s0"
        have zd: "is_digit CHR ''0''" by (simp add: is_digit_def)
        have fpd: "list_all is_digit ?fp"
          using s0(3) zd by (auto simp: list_all_iff)
        have fpn: "?fp \<noteq> []" using s0(1) by simp
        have fr: "parse_fraction (CHR ''.'' # ?fp @ rest) = Some (?fp, rest)"
          using parse_fraction_digits [OF fpd fpn stop1] .
        have ex: "parse_exponent rest = Some (0, rest)"
          using stop by (auto intro: parse_exponent_none)
        have st: "CHR ''.'' # ?fp @ rest = [] \<or> \<not> is_digit (hd (CHR ''.'' # ?fp @ rest))"
          by (simp add: is_digit_def)
        have ipd: "list_all is_digit ''0''" by (simp add: is_digit_def)
        have ipc: "''0'' = ''0'' \<or> (''0'' \<noteq> [] \<and> hd ''0'' \<noteq> CHR ''0'')" by simp
        have len: "length ?fp = d" using lead by (simp add: L_def)
        have v: "nat_of_string (''0'' @ ?fp) = a"
          using val0 by (simp add: nat_of_string_zero_left nat_of_string_zeros_left)
        show ?thesis
          unfolding out
          using parse_number_parts [OF ipd ipc st fr ex] nd
          unfolding v len by simp
      next
        case nolead: False
        let ?e = "int L - int d - 1"
        let ?es = "(if ?e < 0 then ''-'' else ''+'') @ string_of_nat (nat \<bar>?e\<bar>)"
        let ?body = "(if int k = 1 then s @ ''e'' @ ?es else [hd s] @ ''.'' @ tl s @ ''e'' @ ?es)"
        have c1: "\<not> int k \<le> int L - int d"
          using False kLeq by simp
        have c2: "\<not> (0 < int L - int d \<and> int L - int d \<le> 21)"
          using nofrac by linarith
        have c3: "\<not> (- 6 < int L - int d \<and> int L - int d \<le> 0)"
          using nolead by linarith
        have out: "pos_toString a d = ?body"
          by (simp only: unfold c1 c2 c3 simp_thms if_False)
        have body: "?body = (if int (length s) = 1 then s @ ''e'' @ ?es else [hd s] @ ''.'' @ tl s @ ''e'' @ ?es)"
          by (simp add: k_def)
        note pf = parse_number_exponent_form [OF s stop1 refl body]
        have e10: "?e - int (length s - 1) = - int d"
          using kLeq k0 by (simp add: k_def [symmetric] of_nat_diff)
        have v: "nat_of_string s = a" using val0 ss0 by simp
        show ?thesis
          using pf nd unfolding out e10 v by simp
      qed
    qed
  qed
qed

lemma parse_number_Number_toString:
  assumes canon: "canonical m d"
    and stop: "rest = [] \<or> (\<not> is_digit (hd rest) \<and> hd rest \<noteq> CHR ''.''
                 \<and> hd rest \<noteq> CHR ''e'' \<and> hd rest \<noteq> CHR ''E'')"
  shows "parse_number (Number_toString m d @ rest) = Some (JNum m d, rest)"
proof -
  have c: "d = 0 \<or> m mod 10 \<noteq> 0" using canon by (simp add: canonical_def)
  then have nd: "norm_dec m d = (m, d)" by (rule norm_dec_canonical)
  consider (zero) "m = 0" | (pos) "0 < m" | (neg) "m < 0" by linarith
  then show ?thesis
  proof cases
    case zero
    then have d0: "d = 0" using c by simp
    have stop1: "rest = [] \<or> \<not> is_digit (hd rest)" using stop by auto
    have fr: "parse_fraction rest = Some ([], rest)"
      using stop by (auto intro: parse_fraction_none)
    have ex: "parse_exponent rest = Some (0, rest)"
      using stop by (auto intro: parse_exponent_none)
    have ipd: "list_all is_digit ''0''" by (simp add: is_digit_def)
    have ipc: "''0'' = ''0'' \<or> (''0'' \<noteq> [] \<and> hd ''0'' \<noteq> CHR ''0'')" by simp
    have "parse_number (''0'' @ rest) = Some (JNum 0 0, rest)"
      using parse_number_parts(1) [OF ipd ipc stop1 fr ex]
      by (simp add: nat_of_string_def digit_val_def)
    then show ?thesis using zero d0 by (simp add: Number_toString_def)
  next
    case pos
    define a where "a = nat m"
    have a: "0 < a" "int a = m" using pos by (simp_all add: a_def)
    have am: "d = 0 \<or> a mod 10 \<noteq> 0"
    proof (cases "d = 0")
      case True
      then show ?thesis by simp
    next
      case False
      then have "m mod 10 \<noteq> 0" using c by simp
      then have "\<not> 10 dvd m" by (simp add: mod_eq_0_iff_dvd)
      then have "\<not> 10 dvd int a" using a(2) by simp
      then have "\<not> 10 dvd a" using int_dvd_int_iff [of 10 a] by simp
      then show ?thesis by (simp add: mod_eq_0_iff_dvd)
    qed
    have out: "Number_toString m d = pos_toString a d"
      using pos nd by (simp add: Number_toString_def a_def)
    show ?thesis
      using parse_number_pos_toString [OF a(1) am stop] a(2) by (simp add: out)
  next
    case neg
    define a where "a = nat (- m)"
    have a: "0 < a" "- int a = m" using neg by (simp_all add: a_def)
    have am: "d = 0 \<or> a mod 10 \<noteq> 0"
    proof (cases "d = 0")
      case True
      then show ?thesis by simp
    next
      case False
      then have "m mod 10 \<noteq> 0" using c by simp
      then have "\<not> 10 dvd m" by (simp add: mod_eq_0_iff_dvd)
      then have "\<not> 10 dvd int a" using a(2) by (metis dvd_minus_iff)
      then have "\<not> 10 dvd a" using int_dvd_int_iff [of 10 a] by simp
      then show ?thesis by (simp add: mod_eq_0_iff_dvd)
    qed
    have abs: "nat \<bar>m\<bar> = a" using neg by (simp add: a_def)
    have out: "Number_toString m d = CHR ''-'' # pos_toString a d"
      using neg nd abs by (simp add: Number_toString_def)
    show ?thesis
      using parse_number_pos_toString [OF a(1) am stop] a(2) by (simp add: out)
  qed
qed

lemma parse_number_Some_hd:
  assumes "parse_number s = Some x"
  shows "s \<noteq> []" and "hd s = CHR ''-'' \<or> is_digit (hd s)"
proof -
  have "s \<noteq> [] \<and> (hd s = CHR ''-'' \<or> is_digit (hd s))"
  proof (rule ccontr)
    assume "\<not> (s \<noteq> [] \<and> (hd s = CHR ''-'' \<or> is_digit (hd s)))"
    then have "parse_number s = None"
      by (auto simp: parse_number_def Let_def)
    then show False using assms by simp
  qed
  then show "s \<noteq> []" and "hd s = CHR ''-'' \<or> is_digit (hd s)" by simp_all
qed

lemma skip_ws_no_ws: "s \<noteq> [] \<Longrightarrow> \<not> is_ws (hd s) \<Longrightarrow> skip_ws s = s"
  by (cases s) (simp_all add: skip_ws_def)

lemma parse_value_number:
  assumes "parse_number s = Some x"
  shows "parse_value (Suc f) s = Some x"
proof -
  obtain c r where s: "s = c # r"
    using parse_number_Some_hd(1) [OF assms] by (cases s) auto
  have c: "c = CHR ''-'' \<or> is_digit c"
    using parse_number_Some_hd(2) [OF assms] s by simp
  then have nws: "\<not> is_ws c" and other: "c \<noteq> CHR ''{''" "c \<noteq> CHR ''[''" "c \<noteq> CHR 0x22"
      "c \<noteq> CHR ''t''" "c \<noteq> CHR ''f''" "c \<noteq> CHR ''n''"
    by (auto simp: is_ws_def is_digit_def)
  have "skip_ws (c # r) = c # r"
    using nws by (simp add: skip_ws_no_ws)
  then have "parse_value (Suc f) (c # r) = parse_number (c # r)"
    using other by simp
  then show ?thesis using assms s by simp
qed

lemma JSON_parse_number:
  assumes "canonical m d"
  shows "JSON_parse (Number_toString m d) = Inr (JNum m d)"
proof -
  have fuel: "2 * length s + 2 = Suc (Suc (2 * length s))" for s :: string by simp
  have "parse_number (Number_toString m d @ []) = Some (JNum m d, [])"
    by (rule parse_number_Number_toString [OF assms]) simp
  then have "parse_value (Suc (Suc (2 * length (Number_toString m d)))) (Number_toString m d)
      = Some (JNum m d, [])"
    using parse_value_number by simp
  then show ?thesis
    unfolding JSON_parse_def fuel by (simp add: skip_ws_def)
qed

section \<open>Leaf round-trip\<close>

lemma getEditableString_leaf:
  "getEditableString (Some \<lparr>ntext = [leaf_row v], npath = p\<rparr>) = ToString v"
  by (simp add: getEditableString_def leaf_row_def truthy_key_def)

text \<open>
  Claim C1, as amended. For a leaf whose single keyless row holds \<^verbatim>\<open>null\<close>, a boolean
  or a number (in canonical form, as every integer is), parsing the projector's output
  gives back exactly that row: no key, the same value, the type of the value. The type
  of a row value is null, boolean, number or string according to the value.
\<close>

theorem leaf_round_trip:
  "parse_rows JSON_parse (getEditableString (Some \<lparr>ntext = [leaf_row PNull], npath = p\<rparr>))
     = Inr [leaf_row PNull]
   \<and> parse_rows JSON_parse (getEditableString (Some \<lparr>ntext = [leaf_row (PBool b)], npath = p\<rparr>))
     = Inr [leaf_row (PBool b)]
   \<and> (canonical m d \<longrightarrow>
        parse_rows JSON_parse
          (getEditableString (Some \<lparr>ntext = [leaf_row (PNum m d)], npath = p\<rparr>))
        = Inr [leaf_row (PNum m d)])
   \<and> canonical n 0
   \<and> leaf_row v
     = \<lparr>rkey = None, rvalue = v,
        rtype = (case v of PNull \<Rightarrow> TNull | PBool x \<Rightarrow> TBoolean
                 | PNum i j \<Rightarrow> TNumber | PStr s \<Rightarrow> TString)\<rparr>"
proof -
  have null: "JSON_parse ''null'' = Inr JNull" by code_simp
  have true: "JSON_parse ''true'' = Inr (JBool True)" by code_simp
  have false: "JSON_parse ''false'' = Inr (JBool False)" by code_simp
  have c1: "parse_rows JSON_parse (getEditableString (Some \<lparr>ntext = [leaf_row PNull], npath = p\<rparr>))
     = Inr [leaf_row PNull]"
    unfolding getEditableString_leaf
    by (simp add: parse_rows_def null rows_of_parsed_def mk_row_def leaf_row_def)
  have c2: "parse_rows JSON_parse (getEditableString (Some \<lparr>ntext = [leaf_row (PBool b)], npath = p\<rparr>))
     = Inr [leaf_row (PBool b)]"
    unfolding getEditableString_leaf
    by (cases b)
      (simp_all add: parse_rows_def true false rows_of_parsed_def mk_row_def leaf_row_def)
  have c3: "canonical m d \<longrightarrow>
        parse_rows JSON_parse
          (getEditableString (Some \<lparr>ntext = [leaf_row (PNum m d)], npath = p\<rparr>))
        = Inr [leaf_row (PNum m d)]"
  proof
    assume "canonical m d"
    then have "JSON_parse (ToString (PNum m d)) = Inr (JNum m d)"
      by (simp add: JSON_parse_number)
    then show "parse_rows JSON_parse
          (getEditableString (Some \<lparr>ntext = [leaf_row (PNum m d)], npath = p\<rparr>))
        = Inr [leaf_row (PNum m d)]"
      unfolding getEditableString_leaf
      by (simp add: parse_rows_def rows_of_parsed_def mk_row_def leaf_row_def)
  qed
  have c4: "leaf_row v
     = \<lparr>rkey = None, rvalue = v,
        rtype = (case v of PNull \<Rightarrow> TNull | PBool x \<Rightarrow> TBoolean
                 | PNum i j \<Rightarrow> TNumber | PStr s \<Rightarrow> TString)\<rparr>"
    by (cases v) (simp_all add: leaf_row_def)
  have c5: "canonical n 0" by (simp add: canonical_def)
  show ?thesis using c1 c2 c3 c4 c5 by blast
qed

theorem leaf_round_trip_witness:
  "canonical (- 1234) 3
   \<and> getEditableString (Some \<lparr>ntext = [leaf_row (PNum (- 1234) 3)], npath = Some []\<rparr>) = ''-1.234''
   \<and> parse_rows JSON_parse ''-1.234''
       = Inr [\<lparr>rkey = None, rvalue = PNum (- 1234) 3, rtype = TNumber\<rparr>]"
proof -
  have canon: "canonical (- 1234) 3" by (simp add: canonical_def)
  have rendered:
    "getEditableString (Some \<lparr>ntext = [leaf_row (PNum (- 1234) 3)], npath = Some []\<rparr>) = ''-1.234''"
    by code_simp
  have "parse_rows JSON_parse
          (getEditableString (Some \<lparr>ntext = [leaf_row (PNum (- 1234) 3)], npath = Some []\<rparr>))
        = Inr [leaf_row (PNum (- 1234) 3)]"
    using leaf_round_trip [of "Some []" _ "- 1234" 3] canon by blast
  then have "parse_rows JSON_parse ''-1.234'' = Inr [leaf_row (PNum (- 1234) 3)]"
    by (simp only: rendered)
  then show ?thesis using canon rendered by (simp add: leaf_row_def)
qed

text \<open>
  The claim as stated fails for a string. The projector renders the leaf \<^verbatim>\<open>"Ann"\<close> as
  the bare \<^verbatim>\<open>Ann\<close>, which is not JSON, so the parser reports an error; and it renders
  the string \<^verbatim>\<open>"12"\<close> as \<^verbatim>\<open>12\<close>, which parses to the number 12.
\<close>

theorem leaf_round_trip_counterexample:
  "getEditableString (Some \<lparr>ntext = [leaf_row (PStr ''Ann'')], npath = Some []\<rparr>) = ''Ann''
   \<and> parse_rows JSON_parse
        (getEditableString (Some \<lparr>ntext = [leaf_row (PStr ''Ann'')], npath = Some []\<rparr>))
     = Inl ''SyntaxError''
   \<and> leaf_row (PStr ''12'') = \<lparr>rkey = None, rvalue = PStr ''12'', rtype = TString\<rparr>
   \<and> parse_rows JSON_parse
        (getEditableString (Some \<lparr>ntext = [leaf_row (PStr ''12'')], npath = Some []\<rparr>))
     = Inr [\<lparr>rkey = None, rvalue = PNum 12 0, rtype = TNumber\<rparr>]"
proof -
  have a: "getEditableString (Some \<lparr>ntext = [leaf_row (PStr ''Ann'')], npath = Some []\<rparr>) = ''Ann''"
    by code_simp
  have b: "parse_rows JSON_parse
        (getEditableString (Some \<lparr>ntext = [leaf_row (PStr ''Ann'')], npath = Some []\<rparr>))
     = Inl ''SyntaxError''"
    by code_simp
  have c: "leaf_row (PStr ''12'') = \<lparr>rkey = None, rvalue = PStr ''12'', rtype = TString\<rparr>"
    by code_simp
  have d: "parse_rows JSON_parse
        (getEditableString (Some \<lparr>ntext = [leaf_row (PStr ''12'')], npath = Some []\<rparr>))
     = Inr [\<lparr>rkey = None, rvalue = PNum 12 0, rtype = TNumber\<rparr>]"
    by code_simp
  show ?thesis using a b c d by blast
qed

section \<open>Reselection after a committed save\<close>

lemma hex_cases:
  "d < 16 \<Longrightarrow> d = 0 \<or> d = 1 \<or> d = 2 \<or> d = 3 \<or> d = 4 \<or> d = 5 \<or> d = 6 \<or> d = 7 \<or> d = 8
     \<or> d = 9 \<or> d = 10 \<or> d = 11 \<or> d = 12 \<or> d = 13 \<or> d = 14 \<or> d = (15::nat)"
  by arith

lemma hex_val_hex_char: "d < 16 \<Longrightarrow> hex_val (hex_char d) = Some d"
  using hex_cases [of d] by (auto simp: hex_char_def hex_val_def)

lemma unicode_escape_control:
  assumes "(of_char c :: nat) < 32"
  shows "unicode_escape CHR ''0'' CHR ''0'' (hex_char (of_char c div 16)) (hex_char (of_char c mod 16))
           = Some c"
proof -
  let ?n = "of_char c :: nat"
  have z: "hex_val CHR ''0'' = Some 0" by (simp add: hex_val_def)
  have h1: "hex_val (hex_char (?n div 16)) = Some (?n div 16)"
    using assms by (intro hex_val_hex_char) simp
  have h2: "hex_val (hex_char (?n mod 16)) = Some (?n mod 16)"
    by (intro hex_val_hex_char) simp
  have "char_of (16 * (?n div 16) + ?n mod 16) = c" by simp
  then show ?thesis by (simp add: unicode_escape_def z h1 h2)
qed

text \<open>The string parser reads back what \<^verbatim>\<open>JSON.stringify\<close> writes for a code unit.\<close>

lemma parse_string_esc: "parse_string (esc c @ R) = cons_char c (parse_string R)"
proof -
  consider (quote) "c = CHR 0x22" | (backslash) "c = CHR 0x5C" | (b) "c = CHR 0x08"
    | (f) "c = CHR 0x0C" | (n) "c = CHR 0x0A" | (r) "c = CHR 0x0D" | (t) "c = CHR 0x09"
    | (control) "c \<noteq> CHR 0x22" "c \<noteq> CHR 0x5C" "c \<noteq> CHR 0x08" "c \<noteq> CHR 0x0C" "c \<noteq> CHR 0x0A"
        "c \<noteq> CHR 0x0D" "c \<noteq> CHR 0x09" "(of_char c :: nat) < 32"
    | (plain) "c \<noteq> CHR 0x22" "c \<noteq> CHR 0x5C" "c \<noteq> CHR 0x08" "c \<noteq> CHR 0x0C" "c \<noteq> CHR 0x0A"
        "c \<noteq> CHR 0x0D" "c \<noteq> CHR 0x09" "\<not> (of_char c :: nat) < 32"
    by blast
  then show ?thesis
  proof cases
    case quote
    then show ?thesis by (simp add: esc_def simple_escape_def)
  next
    case backslash
    then show ?thesis by (simp add: esc_def simple_escape_def)
  next
    case b
    then show ?thesis by (simp add: esc_def simple_escape_def)
  next
    case f
    then show ?thesis by (simp add: esc_def simple_escape_def)
  next
    case n
    then show ?thesis by (simp add: esc_def simple_escape_def)
  next
    case r
    then show ?thesis by (simp add: esc_def simple_escape_def)
  next
    case t
    then show ?thesis by (simp add: esc_def simple_escape_def)
  next
    case control
    then have "esc c = [CHR 0x5C, CHR ''u'', CHR ''0'', CHR ''0'',
        hex_char (of_char c div 16), hex_char (of_char c mod 16)]"
      by (simp add: esc_def)
    then show ?thesis
      using unicode_escape_control [OF control(8)] by simp
  next
    case plain
    then have "esc c = [c]" by (simp add: esc_def)
    then show ?thesis using plain by simp
  qed
qed

lemma parse_string_body:
  "parse_string (concat (map esc s) @ CHR 0x22 # x) = Some (s, x)"
proof (induction s)
  case Nil
  then show ?case by simp
next
  case (Cons c s)
  have "parse_string (concat (map esc (c # s)) @ CHR 0x22 # x)
      = parse_string (esc c @ (concat (map esc s) @ CHR 0x22 # x))"
    by simp
  also have "\<dots> = cons_char c (parse_string (concat (map esc s) @ CHR 0x22 # x))"
    by (rule parse_string_esc)
  also have "\<dots> = Some (c # s, x)"
    by (simp only: Cons.IH) (simp add: cons_char_def)
  finally show ?case .
qed

text \<open>
  A segment of a stringified path ends where the comma or the closing bracket stands:
  two texts that start with a segment and go on with one of these agree only if the
  segments and the rests are the same.
\<close>

lemma seg_json_Idx_parse:
  assumes "t = CHR '','' \<or> t = CHR '']''"
  shows "parse_number (seg_json (Idx n) @ t # r) = Some (JNum (int n) 0, t # r)"
proof -
  have canon: "canonical (int n) 0" by (simp add: canonical_def)
  have stop: "t # r = [] \<or> (\<not> is_digit (hd (t # r)) \<and> hd (t # r) \<noteq> CHR ''.''
                 \<and> hd (t # r) \<noteq> CHR ''e'' \<and> hd (t # r) \<noteq> CHR ''E'')"
    using assms by (auto simp: is_digit_def)
  show ?thesis
    using parse_number_Number_toString [OF canon stop] by (simp add: seg_json_def)
qed

lemma seg_json_Idx_hd:
  "seg_json (Idx n) \<noteq> []" "hd (seg_json (Idx n)) \<noteq> CHR 0x22" "hd (seg_json (Idx n)) \<noteq> CHR '']''"
proof -
  have canon: "canonical (int n) 0" by (simp add: canonical_def)
  have "parse_number (Number_toString (int n) 0 @ []) = Some (JNum (int n) 0, [])"
    by (rule parse_number_Number_toString [OF canon]) simp
  then have p: "parse_number (seg_json (Idx n)) = Some (JNum (int n) 0, [])"
    by (simp add: seg_json_def)
  show "seg_json (Idx n) \<noteq> []" using parse_number_Some_hd(1) [OF p] .
  have "hd (seg_json (Idx n)) = CHR ''-'' \<or> is_digit (hd (seg_json (Idx n)))"
    using parse_number_Some_hd(2) [OF p] .
  then show "hd (seg_json (Idx n)) \<noteq> CHR 0x22" "hd (seg_json (Idx n)) \<noteq> CHR '']''"
    by (auto simp: is_digit_def)
qed

lemma seg_json_Key: "seg_json (Key s) @ x = CHR 0x22 # concat (map esc s) @ CHR 0x22 # x"
  by (simp add: seg_json_def JSON_quote_def)

lemma seg_json_hd: "seg_json a \<noteq> []" "hd (seg_json a) \<noteq> CHR '']''"
proof -
  show "seg_json a \<noteq> []"
    using seg_json_Idx_hd(1) by (cases a) (simp_all add: seg_json_def JSON_quote_def)
  show "hd (seg_json a) \<noteq> CHR '']''"
    using seg_json_Idx_hd(3) by (cases a) (simp_all add: seg_json_def JSON_quote_def)
qed

lemma seg_json_delimited:
  assumes eq: "seg_json a @ t # r = seg_json b @ t' # r'"
    and t: "t = CHR '','' \<or> t = CHR '']''" and t': "t' = CHR '','' \<or> t' = CHR '']''"
  shows "a = b \<and> t = t' \<and> r = r'"
proof (cases a)
  case (Idx n)
  show ?thesis
  proof (cases b)
    case (Idx n')
    have "parse_number (seg_json (Idx n) @ t # r) = parse_number (seg_json (Idx n') @ t' # r')"
      using eq \<open>a = Idx n\<close> Idx by simp
    then have "Some (JNum (int n) 0, t # r) = Some (JNum (int n') 0, t' # r')"
      by (simp only: seg_json_Idx_parse [OF t] seg_json_Idx_parse [OF t'])
    then show ?thesis using \<open>a = Idx n\<close> Idx by simp
  next
    case (Key s')
    have "hd (seg_json (Idx n) @ t # r) = hd (seg_json (Key s') @ t' # r')"
      using eq \<open>a = Idx n\<close> Key by simp
    then have "hd (seg_json (Idx n)) = CHR 0x22"
      using seg_json_Idx_hd(1) [of n] by (simp add: seg_json_Key)
    then show ?thesis using seg_json_Idx_hd(2) [of n] by simp
  qed
next
  case (Key s)
  show ?thesis
  proof (cases b)
    case (Idx n')
    have "hd (seg_json (Key s) @ t # r) = hd (seg_json (Idx n') @ t' # r')"
      using eq \<open>a = Key s\<close> Idx by simp
    then have "hd (seg_json (Idx n')) = CHR 0x22"
      using seg_json_Idx_hd(1) [of n'] by (simp add: seg_json_Key)
    then show ?thesis using seg_json_Idx_hd(2) [of n'] by simp
  next
    case (Key s')
    have "concat (map esc s) @ CHR 0x22 # t # r = concat (map esc s') @ CHR 0x22 # t' # r'"
      using eq \<open>a = Key s\<close> Key by (simp add: seg_json_Key)
    then have "parse_string (concat (map esc s) @ CHR 0x22 # t # r)
        = parse_string (concat (map esc s') @ CHR 0x22 # t' # r')"
      by simp
    then have "Some (s, t # r) = Some (s', t' # r')"
      by (simp only: parse_string_body)
    then show ?thesis using \<open>a = Key s\<close> Key by simp
  qed
qed

lemma join_close:
  "join '','' (x # xs) @ '']''
     = x @ (if xs = [] then CHR '']'' # [] else CHR '','' # (join '','' xs @ '']''))"
  by (cases xs) simp_all

lemma join_segments_inj:
  "join '','' (map seg_json p) @ '']'' = join '','' (map seg_json q) @ '']'' \<Longrightarrow> p = q"
proof (induction p arbitrary: q)
  case Nil
  show ?case
  proof (cases q)
    case Nil
    then show ?thesis by simp
  next
    case (Cons b q')
    have "'']'' = seg_json b @ (if map seg_json q' = [] then CHR '']'' # []
        else CHR '','' # (join '','' (map seg_json q') @ '']''))"
      using Nil.prems Cons by (simp add: join_close)
    then have "hd (seg_json b) = CHR '']''"
      using seg_json_hd(1) [of b] by (metis hd_append2 list.sel(1))
    then show ?thesis using seg_json_hd(2) [of b] by simp
  qed
next
  case (Cons a p')
  show ?case
  proof (cases q)
    case Nil
    have "seg_json a @ (if map seg_json p' = [] then CHR '']'' # []
        else CHR '','' # (join '','' (map seg_json p') @ '']'')) = '']''"
      using Cons.prems Nil by (simp add: join_close)
    then have "hd (seg_json a) = CHR '']''"
      using seg_json_hd(1) [of a] by (metis hd_append2 list.sel(1))
    then show ?thesis using seg_json_hd(2) [of a] by simp
  next
    case (Cons b q')
    obtain t r where tr: "(if map seg_json p' = [] then CHR '']'' # []
        else CHR '','' # (join '','' (map seg_json p') @ '']'')) = t # r"
        and t: "t = CHR '','' \<or> t = CHR '']''"
        and tp: "t = CHR '']'' \<longleftrightarrow> p' = []"
        and rp: "p' \<noteq> [] \<longrightarrow> r = join '','' (map seg_json p') @ '']''"
      by (cases "p' = []") auto
    obtain t' r' where tr': "(if map seg_json q' = [] then CHR '']'' # []
        else CHR '','' # (join '','' (map seg_json q') @ '']'')) = t' # r'"
        and t': "t' = CHR '','' \<or> t' = CHR '']''"
        and tq: "t' = CHR '']'' \<longleftrightarrow> q' = []"
        and rq: "q' \<noteq> [] \<longrightarrow> r' = join '','' (map seg_json q') @ '']''"
      by (cases "q' = []") auto
    have "seg_json a @ t # r = seg_json b @ t' # r'"
      using Cons.prems Cons tr tr' by (simp only: list.map join_close)
    then have same: "a = b \<and> t = t' \<and> r = r'"
      using seg_json_delimited t t' by blast
    show ?thesis
    proof (cases "p' = []")
      case True
      then have "q' = []" using same tp tq by simp
      then show ?thesis using True same Cons by simp
    next
      case False
      then have q: "q' \<noteq> []" using same tp tq by simp
      then have "join '','' (map seg_json p') @ '']'' = join '','' (map seg_json q') @ '']''"
        using False same rp rq by simp
      then have "p' = q'" by (rule Cons.IH)
      then show ?thesis using same Cons by simp
    qed
  qed
qed

lemma JSON_stringify_path_inj: "JSON_stringify_path p = JSON_stringify_path q \<longleftrightarrow> p = q"
  using join_segments_inj [of p q] by (auto simp: JSON_stringify_path_def)

lemma same_path_iff: "same_path path n \<longleftrightarrow> npath n = Some path"
  by (cases "npath n") (auto simp: same_path_def JSON_stringify_path_inj)

text \<open>
  Claim C8. After a committed save (the text parses and the patch succeeds) the node
  list is the one rebuilt from the new Document. If some node of that list has a path
  equal, segment by segment, to the path of the edited node (the empty path when the
  edited node has none), the first such node becomes the selected node; if no node of
  the list has that path, the selection is left as it was. Both save flows select the
  same node.
\<close>

theorem reselect_after_commit:
  assumes "h_parse h txt = Inr parsed" and "patched h nd parsed (jsonText s) = Inr doc'"
  shows "nodes (handleSave h (Some nd) txt s) = h_graph h doc'
       \<and> selectedNode (handleSave h (Some nd) txt s)
           = (case find (\<lambda>n. npath n = Some (path_of nd)) (h_graph h doc') of
                None \<Rightarrow> selectedNode s
              | Some found \<Rightarrow> Some found)
       \<and> selectedNode (handleSave_inline h (Some nd) txt s)
           = selectedNode (handleSave h (Some nd) txt s)
       \<and> ((\<exists>n \<in> set (h_graph h doc'). npath n = Some (path_of nd)) \<longrightarrow>
            (\<exists>found \<in> set (h_graph h doc'). npath found = Some (path_of nd)
               \<and> selectedNode (handleSave h (Some nd) txt s) = Some found))
       \<and> ((\<forall>n \<in> set (h_graph h doc'). npath n \<noteq> Some (path_of nd)) \<longrightarrow>
            selectedNode (handleSave h (Some nd) txt s) = selectedNode s)
       \<and> path_of nd = (case npath nd of None \<Rightarrow> [] | Some p \<Rightarrow> p)"
proof -
  let ?P = "\<lambda>n. npath n = Some (path_of nd)"
  have same: "same_path (path_of nd) = ?P"
    by (rule ext) (simp add: same_path_iff)
  have sel: "selectedNode (handleSave h (Some nd) txt s)
           = (case find ?P (h_graph h doc') of None \<Rightarrow> selectedNode s | Some found \<Rightarrow> Some found)"
    using assms
    by (simp add: handleSave_def onClose_def reselect_def setJson_def setSelectedNode_def same
          split: option.splits)
  have sel_inline: "selectedNode (handleSave_inline h (Some nd) txt s)
           = (case find ?P (h_graph h doc') of None \<Rightarrow> selectedNode s | Some found \<Rightarrow> Some found)"
    using assms
    by (simp add: handleSave_inline_def onClose_def reselect_def setJson_def setSelectedNode_def
          setContents_def same Let_def split: option.splits)
  have nodes: "nodes (handleSave h (Some nd) txt s) = h_graph h doc'"
    using assms
    by (simp add: handleSave_def onClose_def reselect_def setJson_def setSelectedNode_def
          split: option.splits)
  have found: "(\<exists>n \<in> set (h_graph h doc'). ?P n) \<longrightarrow>
            (\<exists>found \<in> set (h_graph h doc'). ?P found
               \<and> selectedNode (handleSave h (Some nd) txt s) = Some found)"
  proof
    assume "\<exists>n \<in> set (h_graph h doc'). ?P n"
    then obtain found where f: "find ?P (h_graph h doc') = Some found"
      by (cases "find ?P (h_graph h doc')") (auto simp: find_None_iff)
    then have "found \<in> set (h_graph h doc') \<and> ?P found"
      by (auto simp: find_Some_iff)
    then show "\<exists>found \<in> set (h_graph h doc'). ?P found
               \<and> selectedNode (handleSave h (Some nd) txt s) = Some found"
      using sel f by auto
  qed
  have missing: "(\<forall>n \<in> set (h_graph h doc'). npath n \<noteq> Some (path_of nd)) \<longrightarrow>
            selectedNode (handleSave h (Some nd) txt s) = selectedNode s"
  proof
    assume "\<forall>n \<in> set (h_graph h doc'). npath n \<noteq> Some (path_of nd)"
    then have "find ?P (h_graph h doc') = None"
      by (simp add: find_None_iff)
    then show "selectedNode (handleSave h (Some nd) txt s) = selectedNode s"
      using sel by simp
  qed
  have path: "path_of nd = (case npath nd of None \<Rightarrow> [] | Some p \<Rightarrow> p)"
    by (simp add: path_of_def)
  show ?thesis
    using nodes sel sel_inline found missing path by simp
qed

theorem reselect_after_commit_witness:
  \<open>selectedNode
     (handleSave demo_host
        (Some \<lparr>ntext = [\<lparr>rkey = Some ''name'', rvalue = PStr ''Ann'', rtype = TString\<rparr>],
               npath = Some [Key ''user'']\<rparr>) ''{"name": "Bob"}'' demo_state)
     = Some \<lparr>ntext = [\<lparr>rkey = Some ''name'', rvalue = PStr ''Ann'', rtype = TString\<rparr>],
             npath = Some [Key ''user'']\<rparr>
   \<and> selectedNode
       (handleSave demo_host
          (Some \<lparr>ntext = [\<lparr>rkey = Some ''name'', rvalue = PStr ''Ann'', rtype = TString\<rparr>],
                 npath = Some [Key ''gone'']\<rparr>) ''{"name": "Bob"}'' demo_state)
     = None\<close>
proof -
  let ?user = "\<lparr>ntext = [\<lparr>rkey = Some ''name'', rvalue = PStr ''Ann'', rtype = TString\<rparr>],
               npath = Some [Key ''user'']\<rparr>"
  let ?gone = "\<lparr>ntext = [\<lparr>rkey = Some ''name'', rvalue = PStr ''Ann'', rtype = TString\<rparr>],
               npath = Some [Key ''gone'']\<rparr>"
  have p: \<open>h_parse demo_host ''{"name": "Bob"}'' = Inr (JObj [(''name'', JStr ''Bob'')])\<close>
    by code_simp
  have c1: \<open>patched demo_host ?user (JObj [(''name'', JStr ''Bob'')]) (jsonText demo_state)
      = Inr ''doc +$["user"]["name"]''\<close>
    by code_simp
  have c2: \<open>patched demo_host ?gone (JObj [(''name'', JStr ''Bob'')]) (jsonText demo_state)
      = Inr ''doc +$["gone"]["name"]''\<close>
    by code_simp
  have f1: \<open>find (\<lambda>n. npath n = Some (path_of ?user)) (h_graph demo_host ''doc +$["user"]["name"]'')
      = Some ?user\<close>
    by code_simp
  have f2: \<open>find (\<lambda>n. npath n = Some (path_of ?gone)) (h_graph demo_host ''doc +$["gone"]["name"]'')
      = None\<close>
    by code_simp
  have s0: "selectedNode demo_state = None" by (simp add: demo_state_def)
  have a: \<open>selectedNode (handleSave demo_host (Some ?user) ''{"name": "Bob"}'' demo_state) = Some ?user\<close>
    using reselect_after_commit [OF p c1] by (simp only: f1 option.case)
  have b: \<open>selectedNode (handleSave demo_host (Some ?gone) ''{"name": "Bob"}'' demo_state) = None\<close>
    using reselect_after_commit [OF p c2] by (simp only: f2 option.case s0)
  show ?thesis using a b by blast
qed

section \<open>Row Model Projector\<close>

lemma keys_obj_set: "fst ` set (obj_set k v kvs) = insert k (fst ` set kvs)"
proof (cases "k \<in> fst ` set kvs")
  case True
  have "fst ` set (map (\<lambda>e. if fst e = k then (k, v) else e) kvs) = fst ` set kvs"
    by (induction kvs) auto
  then show ?thesis using True by (auto simp: obj_set_def)
next
  case False
  have "set (takeWhile P kvs) \<union> set (dropWhile P kvs) = set kvs" for P
    by (metis set_append takeWhile_dropWhile_id)
  then show ?thesis using False
    by (auto simp: obj_set_def image_Un split: option.splits)
qed

lemma map_of_insert_fresh:
  "k \<notin> fst ` set A \<Longrightarrow> map_of (A @ (k, v) # B) = (map_of (A @ B))(k \<mapsto> v)"
  by (induction A) (auto simp: fun_upd_twist)

lemma distinct_insert_fresh:
  "k \<notin> fst ` set (A @ B) \<Longrightarrow> distinct (map fst (A @ B)) \<Longrightarrow> distinct (map fst (A @ (k, v) # B))"
  by auto

lemma map_of_obj_set: "map_of (obj_set k v kvs) = (map_of kvs)(k \<mapsto> v)"
proof (cases "k \<in> fst ` set kvs")
  case True
  have "map_of (map (\<lambda>e. if fst e = k then (k, v) else e) xs) a
      = (if a = k then (if k \<in> fst ` set xs then Some v else None) else map_of xs a)" for xs a
    by (induction xs) (force simp: image_iff)+
  then have "map_of (map (\<lambda>e. if fst e = k then (k, v) else e) kvs) = (map_of kvs)(k \<mapsto> v)"
    using True by (auto simp: fun_eq_iff)
  then show ?thesis using True by (simp add: obj_set_def)
next
  case False
  have app: "map_of (kvs @ [(k, v)]) = (map_of kvs)(k \<mapsto> v)"
    using False map_of_insert_fresh [of k kvs v "[]"] by simp
  have ins: "map_of (takeWhile P kvs @ [(k, v)] @ dropWhile P kvs) = (map_of kvs)(k \<mapsto> v)" for P
  proof -
    have "k \<notin> fst ` set (takeWhile P kvs)"
      using False by (auto dest: set_takeWhileD)
    then show ?thesis
      using map_of_insert_fresh [of k "takeWhile P kvs" v "dropWhile P kvs"] by simp
  qed
  show ?thesis using False app ins by (simp add: obj_set_def split: option.splits)
qed

lemma distinct_obj_set: "distinct (map fst kvs) \<Longrightarrow> distinct (map fst (obj_set k v kvs))"
proof (cases "k \<in> fst ` set kvs")
  case True
  assume d: "distinct (map fst kvs)"
  have eq: "map fst (map (\<lambda>e. if fst e = k then (k, v) else e) kvs) = map fst kvs"
    by (induction kvs) auto
  have "obj_set k v kvs = map (\<lambda>e. if fst e = k then (k, v) else e) kvs"
    using True by (simp add: obj_set_def)
  then show ?thesis using d by (simp only: eq)
next
  case False
  assume d: "distinct (map fst kvs)"
  have "distinct (map fst (takeWhile P kvs @ [(k, v)] @ dropWhile P kvs))" for P
    using distinct_insert_fresh [of k "takeWhile P kvs" "dropWhile P kvs" v] False d by simp
  moreover have "distinct (map fst (kvs @ [(k, v)]))"
    using distinct_insert_fresh [of k kvs "[]" v] False d by simp
  ultimately show ?thesis using False by (simp add: obj_set_def split: option.splits)
qed


lemma add_row_cases:
  assumes "rkey row \<noteq> Some ''__proto__''"
  shows "add_row (obj, p) row =
     ((if rtype row \<noteq> TArray \<and> rtype row \<noteq> TObject \<and> truthy_key (rkey row)
       then obj_set (the (rkey row)) (rvalue row) obj else obj), p)"
  using assms by (simp add: add_row_def obj_assign_def truthy_key_def split: option.splits)

lemma foldl_add_row_Cons:
  assumes "rkey row \<noteq> Some ''__proto__''"
  shows "rtype row \<noteq> TArray \<and> rtype row \<noteq> TObject \<and> truthy_key (rkey row) \<Longrightarrow>
      foldl add_row (obj, p) (row # rows)
        = foldl add_row (obj_set (the (rkey row)) (rvalue row) obj, p) rows"
    and "\<not> (rtype row \<noteq> TArray \<and> rtype row \<noteq> TObject \<and> truthy_key (rkey row)) \<Longrightarrow>
      foldl add_row (obj, p) (row # rows) = foldl add_row (obj, p) rows"
  using add_row_cases [OF assms, of obj p] by auto

lemma keys_foldl_add_row:
  assumes "\<forall>r \<in> set rows. rkey r \<noteq> Some ''__proto__''"
  shows "fst ` set (fst (foldl add_row (obj, p) rows))
     = fst ` set obj
       \<union> set (map (\<lambda>r. the (rkey r))
              (filter (\<lambda>r. rtype r \<noteq> TArray \<and> rtype r \<noteq> TObject \<and> truthy_key (rkey r)) rows))"
  using assms
proof (induction rows arbitrary: obj)
  case Nil
  then show ?case by simp
next
  case (Cons row rows)
  have np: "rkey row \<noteq> Some ''__proto__''" using Cons.prems by simp
  have rest: "\<forall>r \<in> set rows. rkey r \<noteq> Some ''__proto__''" using Cons.prems by simp
  show ?case
  proof (cases "rtype row \<noteq> TArray \<and> rtype row \<noteq> TObject \<and> truthy_key (rkey row)")
    case True
    show ?thesis
      unfolding foldl_add_row_Cons(1) [OF np True] Cons.IH [OF rest]
      using True by (auto simp: keys_obj_set)
  next
    case False
    show ?thesis
      unfolding foldl_add_row_Cons(2) [OF np False] Cons.IH [OF rest]
      using False by auto
  qed
qed

lemma distinct_foldl_add_row:
  assumes "\<forall>r \<in> set rows. rkey r \<noteq> Some ''__proto__''" and "distinct (map fst obj)"
  shows "distinct (map fst (fst (foldl add_row (obj, p) rows)))"
  using assms
proof (induction rows arbitrary: obj)
  case Nil
  then show ?case by simp
next
  case (Cons row rows)
  have np: "rkey row \<noteq> Some ''__proto__''" using Cons.prems by simp
  have rest: "\<forall>r \<in> set rows. rkey r \<noteq> Some ''__proto__''" using Cons.prems by simp
  show ?case
  proof (cases "rtype row \<noteq> TArray \<and> rtype row \<noteq> TObject \<and> truthy_key (rkey row)")
    case True
    show ?thesis
      unfolding foldl_add_row_Cons(1) [OF np True]
      using Cons.IH [OF rest distinct_obj_set [OF Cons.prems(2)]] .
  next
    case False
    show ?thesis
      unfolding foldl_add_row_Cons(2) [OF np False]
      using Cons.IH [OF rest Cons.prems(2)] .
  qed
qed

lemma map_of_foldl_add_row:
  assumes "\<forall>r \<in> set rows. rkey r \<noteq> Some ''__proto__''"
  shows "map_of (fst (foldl add_row (obj, p) rows))
     = map_of obj
       ++ map_of (rev (map (\<lambda>r. (the (rkey r), rvalue r))
                    (filter (\<lambda>r. rtype r \<noteq> TArray \<and> rtype r \<noteq> TObject \<and> truthy_key (rkey r)) rows)))"
  using assms
proof (induction rows arbitrary: obj)
  case Nil
  then show ?case by simp
next
  case (Cons row rows)
  have np: "rkey row \<noteq> Some ''__proto__''" using Cons.prems by simp
  have rest: "\<forall>r \<in> set rows. rkey r \<noteq> Some ''__proto__''" using Cons.prems by simp
  show ?case
  proof (cases "rtype row \<noteq> TArray \<and> rtype row \<noteq> TObject \<and> truthy_key (rkey row)")
    case True
    let ?k = "the (rkey row)" and ?v = "rvalue row"
    let ?rest = "rev (map (\<lambda>r. (the (rkey r), rvalue r))
        (filter (\<lambda>r. rtype r \<noteq> TArray \<and> rtype r \<noteq> TObject \<and> truthy_key (rkey r)) rows))"
    have assoc: "m(k \<mapsto> v) ++ n = m ++ (map_of [(k, v)] ++ n)"
      for m n :: "string \<rightharpoonup> prim" and k v
      by (rule ext) (simp add: map_add_def split: option.splits)
    have "map_of (fst (foldl add_row (obj, p) (row # rows)))
        = map_of (fst (foldl add_row (obj_set ?k ?v obj, p) rows))"
      by (simp only: foldl_add_row_Cons(1) [OF np True])
    also have "\<dots> = (map_of obj)(?k \<mapsto> ?v) ++ map_of ?rest"
      by (simp only: Cons.IH [OF rest] map_of_obj_set)
    also have "\<dots> = map_of obj ++ (map_of [(?k, ?v)] ++ map_of ?rest)"
      by (rule assoc)
    also have "map_of [(?k, ?v)] ++ map_of ?rest = map_of (?rest @ [(?k, ?v)])"
      by (simp only: map_of_append)
    also have "?rest @ [(?k, ?v)]
        = rev (map (\<lambda>r. (the (rkey r), rvalue r))
            (filter (\<lambda>r. rtype r \<noteq> TArray \<and> rtype r \<noteq> TObject \<and> truthy_key (rkey r)) (row # rows)))"
      using True by simp
    finally show ?thesis .
  next
    case False
    have "filter (\<lambda>r. rtype r \<noteq> TArray \<and> rtype r \<noteq> TObject \<and> truthy_key (rkey r)) (row # rows)
        = filter (\<lambda>r. rtype r \<noteq> TArray \<and> rtype r \<noteq> TObject \<and> truthy_key (rkey r)) rows"
      using False by auto
    then show ?thesis
      using Cons.IH [OF rest, of obj] by (simp only: foldl_add_row_Cons(2) [OF np False])
  qed
qed

text \<open>
  Claim C6, as amended. The projector is a function of the node alone. For an absent
  node it returns \<^verbatim>\<open>{}\<close>. For a node with exactly one row whose key is \<^verbatim>\<open>null\<close> or the
  empty string it returns the bare text of the row's value: a string as it is, without
  quotes, \<^verbatim>\<open>null\<close>, \<^verbatim>\<open>true\<close>, \<^verbatim>\<open>false\<close>, and the digits of an integer. For every other
  node, none of whose rows has the key \<^verbatim>\<open>__proto__\<close>, it returns the pretty-printed JSON,
  one member per line behind two spaces, of an object with distinct keys: its keys are
  the non-empty keys of the rows whose type is neither object nor array, and each is
  mapped to the value of the last such row. So the key of an object or array row is a
  key of the output only if a row of another type has the same key.
\<close>

theorem getEditableString_projection:
  "getEditableString None = ''{}''
   \<and> (truthy_key key \<longleftrightarrow> key \<noteq> None \<and> key \<noteq> Some [])
   \<and> (ntext nd = [row] \<and> \<not> truthy_key (rkey row) \<longrightarrow>
        getEditableString (Some nd) = ToString (rvalue row))
   \<and> ToString (PStr str) = str
   \<and> ToString PNull = ''null''
   \<and> ToString (PBool True) = ''true''
   \<and> ToString (PBool False) = ''false''
   \<and> (\<bar>n\<bar> < 10 ^ 21 \<longrightarrow>
        ToString (PNum n 0) = (if n < 0 then ''-'' else []) @ string_of_nat (nat \<bar>n\<bar>))
   \<and> (\<not> isPrimitive nd \<and> (\<forall>r \<in> set (ntext nd). rkey r \<noteq> Some ''__proto__'') \<longrightarrow>
        (\<exists>obj. getEditableString (Some nd) = JSON_stringify2 obj
           \<and> distinct (map fst obj)
           \<and> fst ` set obj
               = {k. k \<noteq> [] \<and> (\<exists>r \<in> set (ntext nd).
                       rkey r = Some k \<and> rtype r \<noteq> TObject \<and> rtype r \<noteq> TArray)}
           \<and> (\<forall>k. map_of obj k
                 = map_of (rev (map (\<lambda>r. (the (rkey r), rvalue r))
                     (filter (\<lambda>r. rtype r \<noteq> TArray \<and> rtype r \<noteq> TObject \<and> truthy_key (rkey r))
                        (ntext nd)))) k)))
   \<and> JSON_stringify2 [] = ''{}''
   \<and> (members \<noteq> [] \<longrightarrow>
        JSON_stringify2 members
          = [CHR ''{'', CHR 0x0A]
            @ join [CHR '','', CHR 0x0A]
                (map (\<lambda>(k, v). ''  '' @ JSON_quote k @ '': '' @ JSON_stringify_prim v) members)
            @ [CHR 0x0A, CHR ''}''])"
proof -
  have truthy: "truthy_key key \<longleftrightarrow> key \<noteq> None \<and> key \<noteq> Some []"
    by (cases key) (simp_all add: truthy_key_def)
  have leaf: "ntext nd = [row] \<and> \<not> truthy_key (rkey row) \<longrightarrow>
        getEditableString (Some nd) = ToString (rvalue row)"
    by (simp add: getEditableString_def)
  have num: "\<bar>n\<bar> < 10 ^ 21 \<longrightarrow>
        ToString (PNum n 0) = (if n < 0 then ''-'' else []) @ string_of_nat (nat \<bar>n\<bar>)"
    using Number_toString_int [of n] by simp
  have object: "\<not> isPrimitive nd \<and> (\<forall>r \<in> set (ntext nd). rkey r \<noteq> Some ''__proto__'') \<longrightarrow>
        (\<exists>obj. getEditableString (Some nd) = JSON_stringify2 obj
           \<and> distinct (map fst obj)
           \<and> fst ` set obj
               = {k. k \<noteq> [] \<and> (\<exists>r \<in> set (ntext nd).
                       rkey r = Some k \<and> rtype r \<noteq> TObject \<and> rtype r \<noteq> TArray)}
           \<and> (\<forall>k. map_of obj k
                 = map_of (rev (map (\<lambda>r. (the (rkey r), rvalue r))
                     (filter (\<lambda>r. rtype r \<noteq> TArray \<and> rtype r \<noteq> TObject \<and> truthy_key (rkey r))
                        (ntext nd)))) k))"
  proof (intro impI, elim conjE)
    assume np: "\<not> isPrimitive nd"
      and proto: "\<forall>r \<in> set (ntext nd). rkey r \<noteq> Some ''__proto__''"
    let ?obj = "fst (foldl add_row ([], False) (ntext nd))"
    have out: "getEditableString (Some nd) = JSON_stringify2 ?obj"
      using np unfolding getEditableString_def isPrimitive_def by auto
    have dist: "distinct (map fst ?obj)"
      by (rule distinct_foldl_add_row [OF proto]) simp
    have "fst ` set ?obj = set (editableKeys nd)"
      by (simp add: keys_foldl_add_row [OF proto] editableKeys_def)
    then have keys: "fst ` set ?obj
               = {k. k \<noteq> [] \<and> (\<exists>r \<in> set (ntext nd).
                       rkey r = Some k \<and> rtype r \<noteq> TObject \<and> rtype r \<noteq> TArray)}"
      by (simp only: set_editableKeys)
    have vals: "\<forall>k. map_of ?obj k
                 = map_of (rev (map (\<lambda>r. (the (rkey r), rvalue r))
                     (filter (\<lambda>r. rtype r \<noteq> TArray \<and> rtype r \<noteq> TObject \<and> truthy_key (rkey r))
                        (ntext nd)))) k"
      by (simp add: map_of_foldl_add_row [OF proto])
    show "\<exists>obj. getEditableString (Some nd) = JSON_stringify2 obj
           \<and> distinct (map fst obj)
           \<and> fst ` set obj
               = {k. k \<noteq> [] \<and> (\<exists>r \<in> set (ntext nd).
                       rkey r = Some k \<and> rtype r \<noteq> TObject \<and> rtype r \<noteq> TArray)}
           \<and> (\<forall>k. map_of obj k
                 = map_of (rev (map (\<lambda>r. (the (rkey r), rvalue r))
                     (filter (\<lambda>r. rtype r \<noteq> TArray \<and> rtype r \<noteq> TObject \<and> truthy_key (rkey r))
                        (ntext nd)))) k)"
      using out dist keys vals by blast
  qed
  have printed: "members \<noteq> [] \<longrightarrow>
        JSON_stringify2 members
          = [CHR ''{'', CHR 0x0A]
            @ join [CHR '','', CHR 0x0A]
                (map (\<lambda>(k, v). ''  '' @ JSON_quote k @ '': '' @ JSON_stringify_prim v) members)
            @ [CHR 0x0A, CHR ''}'']"
  proof -
    have "member2 = (\<lambda>(k, v). ''  '' @ JSON_quote k @ '': '' @ JSON_stringify_prim v)"
      by (rule ext) (simp add: member2_def split: prod.splits)
    then show ?thesis by (simp add: JSON_stringify2_def)
  qed
  have simple: "getEditableString None = ''{}'' \<and> ToString (PStr str) = str
      \<and> ToString PNull = ''null'' \<and> ToString (PBool True) = ''true''
      \<and> ToString (PBool False) = ''false'' \<and> JSON_stringify2 [] = ''{}''"
    by (simp add: getEditableString_def JSON_stringify2_def)
  show ?thesis
    using truthy leaf num object printed simple by blast
qed

theorem getEditableString_projection_witness:
  \<open>getEditableString
       (Some \<lparr>ntext = [\<lparr>rkey = None, rvalue = PStr ''Ann'', rtype = TString\<rparr>], npath = None\<rparr>)
     = ''Ann''
   \<and> ToString (PNum (- 30) 0) = ''-30''
   \<and> (\<exists>obj. getEditableString (Some demo_node) = JSON_stringify2 obj \<and> distinct (map fst obj))
   \<and> JSON_stringify2 [(''a'', PNum 1 0)] = ''{'' @ [CHR 0x0A] @ ''  "a": 1'' @ [CHR 0x0A] @ ''}''\<close>
proof -
  note leaf = getEditableString_projection
    [of _ "\<lparr>ntext = [\<lparr>rkey = None, rvalue = PStr ''Ann'', rtype = TString\<rparr>], npath = None\<rparr>"
        "\<lparr>rkey = None, rvalue = PStr ''Ann'', rtype = TString\<rparr>" _ "- 30"]
  note obj = getEditableString_projection [of _ demo_node _ _ _ "[(''a'', PNum 1 0)]"]
  have c1: "getEditableString
       (Some \<lparr>ntext = [\<lparr>rkey = None, rvalue = PStr ''Ann'', rtype = TString\<rparr>], npath = None\<rparr>)
     = ''Ann''"
    using leaf by (simp add: truthy_key_def)
  have "string_of_nat 30 = ''30''"
    by (simp add: string_of_nat.simps digit_char_def)
  then have c2: "ToString (PNum (- 30) 0) = ''-30''"
    using leaf by simp
  have node: "\<not> isPrimitive demo_node \<and> (\<forall>r \<in> set (ntext demo_node). rkey r \<noteq> Some ''__proto__'')"
    by (simp add: isPrimitive_def demo_node_def)
  note imp = obj [THEN conjunct2, THEN conjunct2, THEN conjunct2, THEN conjunct2,
    THEN conjunct2, THEN conjunct2, THEN conjunct2, THEN conjunct2, THEN conjunct1]
  from imp [THEN mp, OF node]
  obtain out where "getEditableString (Some demo_node) = JSON_stringify2 out"
      and "distinct (map fst out)"
    by (elim exE conjE)
  then have c3: "\<exists>obj. getEditableString (Some demo_node) = JSON_stringify2 obj \<and> distinct (map fst obj)"
    by (intro exI conjI)
  have "[(''a'', PNum 1 0)] \<noteq> []" by simp
  then have "JSON_stringify2 [(''a'', PNum 1 0)]
      = [CHR ''{'', CHR 0x0A]
            @ join [CHR '','', CHR 0x0A]
                (map (\<lambda>(k, v). ''  '' @ JSON_quote k @ '': '' @ JSON_stringify_prim v)
                   [(''a'', PNum 1 0)])
            @ [CHR 0x0A, CHR ''}'']"
    using obj by blast
  moreover have \<open>[CHR ''{'', CHR 0x0A]
            @ join [CHR '','', CHR 0x0A]
                (map (\<lambda>(k, v). ''  '' @ JSON_quote k @ '': '' @ JSON_stringify_prim v)
                   [(''a'', PNum 1 0)])
            @ [CHR 0x0A, CHR ''}'']
      = ''{'' @ [CHR 0x0A] @ ''  "a": 1'' @ [CHR 0x0A] @ ''}''\<close>
    by code_simp
  ultimately have c4: \<open>JSON_stringify2 [(''a'', PNum 1 0)]
      = ''{'' @ [CHR 0x0A] @ ''  "a": 1'' @ [CHR 0x0A] @ ''}''\<close>
    by (rule trans)
  show ?thesis using c1 c2 c3 c4 by blast
qed

text \<open>
  The claim as stated takes a row with a key for a keyed row. A single row whose key
  is the empty string is projected as a leaf, to the bare \<^verbatim>\<open>1\<close>, and not to the
  pretty-printed object that maps the empty key to 1; next to a second row, the row
  with the empty key is left out of the object although its type is number. A row with
  the key \<^verbatim>\<open>__proto__\<close> is left out as well.
\<close>

theorem getEditableString_projection_counterexample:
  \<open>getEditableString
       (Some \<lparr>ntext = [\<lparr>rkey = Some '''', rvalue = PNum 1 0, rtype = TNumber\<rparr>], npath = Some []\<rparr>)
     = ''1''
   \<and> JSON_stringify2 [('''', PNum 1 0)] = ''{'' @ [CHR 0x0A] @ ''  "": 1'' @ [CHR 0x0A] @ ''}''
   \<and> getEditableString (Some demo_empty_key_node)
     = ''{'' @ [CHR 0x0A] @ ''  "a": 2'' @ [CHR 0x0A] @ ''}''
   \<and> getEditableString
       (Some \<lparr>ntext = [\<lparr>rkey = Some ''__proto__'', rvalue = PStr ''x'', rtype = TString\<rparr>,
                       \<lparr>rkey = Some ''a'', rvalue = PNum 2 0, rtype = TNumber\<rparr>],
              npath = Some []\<rparr>)
     = ''{'' @ [CHR 0x0A] @ ''  "a": 2'' @ [CHR 0x0A] @ ''}''\<close>
proof -
  have a: "getEditableString
       (Some \<lparr>ntext = [\<lparr>rkey = Some '''', rvalue = PNum 1 0, rtype = TNumber\<rparr>], npath = Some []\<rparr>)
     = ''1''"
    by code_simp
  have b: \<open>JSON_stringify2 [('''', PNum 1 0)] = ''{'' @ [CHR 0x0A] @ ''  "": 1'' @ [CHR 0x0A] @ ''}''\<close>
    by code_simp
  have c: \<open>getEditableString (Some demo_empty_key_node)
     = ''{'' @ [CHR 0x0A] @ ''  "a": 2'' @ [CHR 0x0A] @ ''}''\<close>
    by code_simp
  have d: \<open>getEditableString
       (Some \<lparr>ntext = [\<lparr>rkey = Some ''__proto__'', rvalue = PStr ''x'', rtype = TString\<rparr>,
                       \<lparr>rkey = Some ''a'', rvalue = PNum 2 0, rtype = TNumber\<rparr>],
              npath = Some []\<rparr>)
     = ''{'' @ [CHR 0x0A] @ ''  "a": 2'' @ [CHR 0x0A] @ ''}''\<close>
    by code_simp
  show ?thesis using a b c d by blast
qed

end
